theory Spec2Isabelle
  imports Complex_Main "HOL-Library.AList" "HOL-Library.Log_Nat"
begin

section \<open>Data model\<close>

text \<open>
  The exporter of \<^verbatim>\<open>hyperlane_network_exporter.py\<close>: a poller that reads the latest
  checkpoint of the Hyperlane merkle tree hook contract and publishes it as a gauge
  labelled with the network.
\<close>

subsection \<open>Supported Ethereum networks\<close>

text \<open>\<^verbatim>\<open>class SupportedNetworks(str, enum.Enum)\<close>: a closed enumeration whose members are strings.\<close>

datatype SupportedNetworks = MAINNET | HOLESKY

text \<open>The member's \<^verbatim>\<open>value\<close>, which \<^verbatim>\<open>__str__\<close> returns.\<close>

fun enum_value :: "SupportedNetworks \<Rightarrow> string" where
  "enum_value MAINNET = ''mainnet''"
| "enum_value HOLESKY = ''holesky''"

definition str :: "SupportedNetworks \<Rightarrow> string" where
  "str n = enum_value n"

subsection \<open>Exceptions\<close>

text \<open>
  Python exceptions are values. \<open>RuntimeError\<close> carries its argument tuple (the source passes
  the format string and the chain id as two arguments, without formatting them).
  \<open>AttributeError\<close> carries the name of the missing attribute. \<open>CancelledError\<close> is what
  asyncio throws into a cancelled coroutine. \<open>AdapterError\<close> stands for every exception the
  chain client (web3, aiohttp) raises: transport failures and contract reverts.
  \<open>OverflowError\<close> and \<open>ZeroDivisionError\<close> are what the division \<^verbatim>\<open>/\<close> of two
  integers raises.
\<close>

datatype pyarg = AStr string | AInt int

datatype error =
    RuntimeError "pyarg list"
  | AttributeError string
  | CancelledError
  | AdapterError string
  | OverflowError
  | ZeroDivisionError

subsection \<open>Floats\<close>

text \<open>
  A Python float is a binary64 number: \<open>Float m e\<close> stands for \<open>m * 2 ^ e\<close>. The division
  \<^verbatim>\<open>a / b\<close> of two integers gives the float nearest to the quotient, ties going to the even
  mantissa, with a mantissa of 53 bits (the exponent of the last bit is not below -1074); it
  raises \<open>ZeroDivisionError\<close> when \<open>b\<close> is zero and \<open>OverflowError\<close> when the rounded
  quotient reaches \<open>2 ^ 1024\<close>. The quotient of \<open>a\<close> and \<open>b\<close>, both positive, lies in
  \<open>[2 ^ k, 2 ^ (k + 1))\<close> for \<open>k = binade a b\<close>, found from the bit lengths of \<open>a\<close> and \<open>b\<close>;
  the arithmetic is on integers throughout.
\<close>

datatype pyfloat = Float int int

fun float_value :: "pyfloat \<Rightarrow> rat" where
  "float_value (Float m e) = of_int m * 2 powi e"

definition shl :: "int \<Rightarrow> int \<Rightarrow> int" where
  "shl x k = (if 0 \<le> k then x * 2 ^ nat k else x)"

definition round_half_even :: "int \<Rightarrow> int \<Rightarrow> int" where
  "round_half_even num den =
     (if 2 * (num mod den) < den then num div den
      else if den < 2 * (num mod den) then num div den + 1
      else if even (num div den) then num div den
      else num div den + 1)"

definition binade :: "int \<Rightarrow> int \<Rightarrow> int" where
  "binade a b =
     (if shl b (bitlen a - bitlen b) \<le> shl a (bitlen b - bitlen a)
      then bitlen a - bitlen b else bitlen a - bitlen b - 1)"

definition ulp_exp :: "int \<Rightarrow> int \<Rightarrow> int" where
  "ulp_exp a b = max (binade a b - 52) (- 1074)"

definition nearest_double :: "int \<Rightarrow> int \<Rightarrow> pyfloat" where
  "nearest_double a b =
     Float (round_half_even (shl a (- ulp_exp a b)) (shl b (ulp_exp a b))) (ulp_exp a b)"

fun too_large :: "pyfloat \<Rightarrow> bool" where
  "too_large (Float m e) = (0 \<le> e \<and> 2 ^ 1024 \<le> m * 2 ^ nat e)"

fun negate :: "pyfloat \<Rightarrow> pyfloat" where
  "negate (Float m e) = Float (- m) e"

definition truediv :: "int \<Rightarrow> int \<Rightarrow> error + pyfloat" where
  "truediv a b =
     (if b = 0 then Inl ZeroDivisionError
      else if a = 0 then Inr (Float 0 0)
      else if too_large (nearest_double \<bar>a\<bar> \<bar>b\<bar>) then Inl OverflowError
      else if (a < 0) = (b < 0) then Inr (nearest_double \<bar>a\<bar> \<bar>b\<bar>)
      else Inr (negate (nearest_double \<bar>a\<bar> \<bar>b\<bar>)))"

subsection \<open>Effects\<close>

text \<open>
  What the code does to the outside, in the order it does it: a \<^verbatim>\<open>logger.info\<close> call (format
  string and arguments), a contract call sent to the chain client (contract address and
  function name), a \<^verbatim>\<open>set\<close> on a labelled child of the gauge, a \<^verbatim>\<open>loop.create_task\<close>, and
  the argument in seconds given to \<^verbatim>\<open>asyncio.sleep\<close>.
\<close>

datatype coroutine = Run | Tick | Stop

datatype event =
    LogInfo string "pyarg list"
  | EthCall string string
  | GaugeSet string int
  | CreateTask coroutine
  | AsyncioSleep pyfloat

subsection \<open>Tasks of the event loop\<close>

text \<open>
  A coroutine of the exporter is suspended at one of its \<^verbatim>\<open>await\<close>s, or has not started yet:
  \<^item> \<open>RunStart\<close>: \<^verbatim>\<open>run()\<close> was given to \<^verbatim>\<open>create_task\<close> and has not run yet;
  \<^item> \<open>RunSleep\<close>: \<^verbatim>\<open>run()\<close> is in \<^verbatim>\<open>await self.sleep()\<close>;
  \<^item> \<open>TickStart\<close>: \<^verbatim>\<open>tick()\<close> was given to \<^verbatim>\<open>create_task\<close> and has not run yet;
  \<^item> \<open>TickCall\<close>: \<^verbatim>\<open>tick()\<close> is in \<^verbatim>\<open>await ...latestCheckpoint().call()\<close>;
  \<^item> \<open>StopWait\<close>: \<^verbatim>\<open>stop()\<close> is in \<^verbatim>\<open>await self.stopped.wait()\<close>;
  \<^item> \<open>StopClose\<close>: \<^verbatim>\<open>stop()\<close> is in \<^verbatim>\<open>await self.session.close()\<close>.

  A task is pending at such a point, with the flag that a cancellation was requested
  (\<^verbatim>\<open>Task.cancel()\<close> on a pending task), or finished: with the coroutine it ran, the exception
  that ended it (\<open>None\<close> when it returned), and whether a done callback is still to be run.
\<close>

datatype coro = RunStart | RunSleep | TickStart | TickCall | StopWait | StopClose

fun kind_of :: "coro \<Rightarrow> coroutine" where
  "kind_of RunStart = Run"
| "kind_of RunSleep = Run"
| "kind_of TickStart = Tick"
| "kind_of TickCall = Tick"
| "kind_of StopWait = Stop"
| "kind_of StopClose = Stop"

datatype task =
    Pending coro bool
  | Finished coroutine "error option" bool

subsection \<open>The exporter and its world\<close>

text \<open>
  The fields of \<^verbatim>\<open>HyperlaneContractExporter\<close> that \<^verbatim>\<open>__init__\<close> sets (\<open>rpc_address\<close>,
  \<open>interval_ms\<close>, the session, \<open>stopping\<close>, \<open>stopped\<close>), the attributes that appear later
  (\<open>network\<close>, set by \<^verbatim>\<open>init\<close>; the cache of the \<^verbatim>\<open>cached_property\<close> \<open>contract\<close>;
  \<open>_runner_task\<close>, set by \<^verbatim>\<open>start\<close>): an attribute that does not exist yet is \<open>None\<close>.
  Beside them the module-level gauge \<^verbatim>\<open>hyperlane_contract_latest_checkpoint\<close> (label to
  value), the tasks of the event loop (a task is named by its index), and the effects so far.
  A contract object is represented by the address it was built for.
\<close>

record world =
  rpc_address :: string
  interval_ms :: int
  session_closed :: bool
  stopping :: bool
  stopped :: bool
  network :: "SupportedNetworks option"
  contract_cache :: "string option"
  runner_task :: "nat option"
  gauge :: "(string \<times> int) list"
  tasks :: "task list"
  trace :: "event list"

text \<open>\<^verbatim>\<open>HyperlaneContractExporter.__init__\<close>, in a fresh process: no label, no task, no effect.\<close>

definition new_exporter :: "string \<Rightarrow> int \<Rightarrow> world" where
  "new_exporter rpc ms =
     \<lparr>rpc_address = rpc, interval_ms = ms, session_closed = False, stopping = False,
      stopped = False, network = None, contract_cache = None, runner_task = None,
      gauge = [], tasks = [], trace = []\<rparr>"

definition DEFAULT_INTERVAL_MS :: int where
  "DEFAULT_INTERVAL_MS = 30000"

section \<open>Network registry\<close>

text \<open>
  \<^verbatim>\<open>SupportedNetworks.hyperlane_merkle_tree_hook_contract\<close>: a \<^verbatim>\<open>match\<close> on \<^verbatim>\<open>self.value\<close>
  with the value patterns \<^verbatim>\<open>SupportedNetworks.HOLESKY\<close> and \<^verbatim>\<open>SupportedNetworks.MAINNET\<close>
  (compared as strings, the members being strings), and a \<^verbatim>\<open>raise RuntimeError\<close> after it.
\<close>

definition hyperlane_merkle_tree_hook_contract :: "SupportedNetworks \<Rightarrow> error + string" where
  "hyperlane_merkle_tree_hook_contract self =
     (if enum_value self = enum_value HOLESKY
        then Inr ''0x98AAE089CaD930C64a76dD2247a2aC5773a4B8cE''
      else if enum_value self = enum_value MAINNET
        then Inr ''0x48e6c30B97748d1e2e03bf3e9FbE3890ca5f8CCA''
      else Inl (RuntimeError
        [AStr ''Can not derive hyperlane merkle tree hook address for network'']))"

text \<open>
  \<^verbatim>\<open>get_hyperlane_merkle_tree_hook_contract\<close>: the contract object for the network's address
  (the ABI is a fixed file of the package).
\<close>

definition get_hyperlane_merkle_tree_hook_contract :: "SupportedNetworks \<Rightarrow> error + string" where
  "get_hyperlane_merkle_tree_hook_contract n = hyperlane_merkle_tree_hook_contract n"

section \<open>The exporter's operations\<close>

text \<open>
  The \<^verbatim>\<open>cached_property\<close> \<open>contract\<close>: the cached object if there is one; otherwise it reads
  \<^verbatim>\<open>self.network\<close> (an \<open>AttributeError\<close> before \<^verbatim>\<open>init\<close>), builds the contract and caches it.
  Nothing is cached when building raises.
\<close>

definition contract :: "world \<Rightarrow> (error + string) \<times> world" where
  "contract w =
     (case contract_cache w of
        Some c \<Rightarrow> (Inr c, w)
      | None \<Rightarrow>
          (case network w of
             None \<Rightarrow> (Inl (AttributeError ''network''), w)
           | Some n \<Rightarrow>
               (case get_hyperlane_merkle_tree_hook_contract n of
                  Inl e \<Rightarrow> (Inl e, w)
                | Inr c \<Rightarrow> (Inr c, w\<lparr>contract_cache := Some c\<rparr>))))"

text \<open>
  \<^verbatim>\<open>init\<close>. Its argument is the outcome of \<^verbatim>\<open>await self.w3.eth.chain_id\<close>: the chain id, or
  the exception the chain client raised. Nothing happens before that \<^verbatim>\<open>await\<close>. For an
  unsupported chain id it raises \<open>RuntimeError\<close> with two arguments, the message and the id.
\<close>

definition init :: "world \<Rightarrow> error + int \<Rightarrow> (error + unit) \<times> world" where
  "init w r =
     (case r of
        Inl e \<Rightarrow> (Inl e, w)
      | Inr chain_id \<Rightarrow>
          if chain_id = 1 then
            (Inr (), w\<lparr>network := Some MAINNET,
                       trace := trace w @ [LogInfo ''Discovered Ethereum network as MAINNET'' []]\<rparr>)
          else if chain_id = 17000 then
            (Inr (), w\<lparr>network := Some HOLESKY,
                       trace := trace w @ [LogInfo ''Discovered Ethereum network as HOLESKY'' []]\<rparr>)
          else (Inl (RuntimeError
                 [AStr ''Unsupported network with chain id %s'', AInt chain_id]), w))"

text \<open>
  The result of \<^verbatim>\<open>latestCheckpoint()\<close>: the pair of the root (bytes) and the index, which
  \<^verbatim>\<open>tick\<close> unpacks with \<^verbatim>\<open>_, value = ...\<close>.
\<close>

type_synonym checkpoint = "string \<times> int"

text \<open>
  \<^verbatim>\<open>tick\<close>, in two parts around its \<^verbatim>\<open>await\<close>. Up to the \<^verbatim>\<open>await\<close>: it gets
  \<^verbatim>\<open>self.contract\<close> and sends the call. After it, with the outcome of the call (the pair, or
  the exception thrown into the coroutine, \<open>CancelledError\<close> when the tick was cancelled): it
  logs the value, then sets the gauge's child for \<^verbatim>\<open>self.network\<close>, the label being
  \<^verbatim>\<open>str\<close> of the network.
\<close>

definition tick_begin :: "world \<Rightarrow> (error + unit) \<times> world" where
  "tick_begin w =
     (case contract w of
        (Inl e, w1) \<Rightarrow> (Inl e, w1)
      | (Inr c, w1) \<Rightarrow> (Inr (), w1\<lparr>trace := trace w1 @ [EthCall c ''latestCheckpoint'']\<rparr>))"

definition tick_resume :: "world \<Rightarrow> error + checkpoint \<Rightarrow> (error + unit) \<times> world" where
  "tick_resume w r =
     (case r of
        Inl e \<Rightarrow> (Inl e, w)
      | Inr (rt, v) \<Rightarrow>
          (case network w of
             None \<Rightarrow>
               (Inl (AttributeError ''network''),
                w\<lparr>trace := trace w @
                  [LogInfo ''Fetched checkpoint index from contract: %s'' [AInt v]]\<rparr>)
           | Some n \<Rightarrow>
               (Inr (),
                w\<lparr>gauge := AList.update (str n) v (gauge w),
                  trace := trace w @
                    [LogInfo ''Fetched checkpoint index from contract: %s'' [AInt v],
                     GaugeSet (str n) v]\<rparr>)))"

text \<open>\<^verbatim>\<open>tick\<close> awaited by its caller, nothing else running in between.\<close>

definition tick :: "world \<Rightarrow> error + checkpoint \<Rightarrow> (error + unit) \<times> world" where
  "tick w r =
     (case tick_begin w of
        (Inl e, w1) \<Rightarrow> (Inl e, w1)
      | (Inr u, w1) \<Rightarrow> tick_resume w1 r)"

text \<open>
  A finished task. \<^verbatim>\<open>start\<close> is the only place that creates a task for \<^verbatim>\<open>run()\<close>, and it
  adds \<^verbatim>\<open>on_runner_task_done\<close> to it before the task can run; no other task of the exporter
  has a done callback. The event loop runs the callback in a later turn.
\<close>

definition finish :: "coroutine \<Rightarrow> error option \<Rightarrow> task" where
  "finish k r = Finished k r (k = Run)"

definition on_runner_task_done :: "world \<Rightarrow> world" where
  "on_runner_task_done w = w\<lparr>stopped := True\<rparr>"

definition start :: "world \<Rightarrow> world" where
  "start w =
     w\<lparr>runner_task := Some (length (tasks w)),
       tasks := tasks w @ [Pending RunStart False],
       trace := trace w @ [CreateTask Run]\<rparr>"

text \<open>
  \<^verbatim>\<open>Task.cancel()\<close>: on a finished task it does nothing (and returns False); on a pending one
  it requests the cancellation, and the task's next step throws \<open>CancelledError\<close> into the
  coroutine where it is suspended (or at its start, when it never ran).
\<close>

definition cancel :: "nat \<Rightarrow> world \<Rightarrow> world" where
  "cancel tid w =
     (if tid < length (tasks w) then
        (case tasks w ! tid of
           Pending c m \<Rightarrow> w\<lparr>tasks := (tasks w)[tid := Pending c True]\<rparr>
         | Finished k r cb \<Rightarrow> w)
      else w)"

text \<open>
  \<^verbatim>\<open>sleep\<close>: the argument of \<^verbatim>\<open>asyncio.sleep\<close> is \<^verbatim>\<open>self.interval_ms / 1000\<close>, a float, in
  seconds; the division raises \<open>OverflowError\<close> when \<open>interval_ms\<close> is too large.
\<close>

definition sleep_seconds :: "world \<Rightarrow> error + pyfloat" where
  "sleep_seconds w = truediv (interval_ms w) 1000"

text \<open>
  \<^verbatim>\<open>run\<close>, from the head of its \<^verbatim>\<open>while\<close> to its next suspension, as the task \<open>tid\<close>: when
  \<^verbatim>\<open>self.stopping\<close> is false it creates a task for \<^verbatim>\<open>tick()\<close> (appended to the tasks, not
  started) and goes into \<^verbatim>\<open>sleep\<close>, where it suspends in \<^verbatim>\<open>asyncio.sleep\<close>, or ends with the
  exception of the division, the tick's task being created already; when \<^verbatim>\<open>self.stopping\<close>
  is true it leaves the loop, sets \<^verbatim>\<open>stopped\<close> and returns.
\<close>

definition run_iter :: "nat \<Rightarrow> world \<Rightarrow> world" where
  "run_iter tid w =
     (if \<not> stopping w then
        (case sleep_seconds w of
           Inl e \<Rightarrow>
             w\<lparr>tasks := (tasks w)[tid := finish Run (Some e)] @ [Pending TickStart False],
               trace := trace w @ [CreateTask Tick]\<rparr>
         | Inr d \<Rightarrow>
             w\<lparr>tasks := (tasks w)[tid := Pending RunSleep False] @ [Pending TickStart False],
               trace := trace w @ [CreateTask Tick, AsyncioSleep d]\<rparr>)
      else
        w\<lparr>stopped := True, tasks := (tasks w)[tid := finish Run None]\<rparr>)"

text \<open>The two steps of a task running \<^verbatim>\<open>tick()\<close>.\<close>

definition tick_first :: "nat \<Rightarrow> world \<Rightarrow> world" where
  "tick_first tid w =
     (case tick_begin w of
        (Inl e, w1) \<Rightarrow> w1\<lparr>tasks := (tasks w1)[tid := finish Tick (Some e)]\<rparr>
      | (Inr u, w1) \<Rightarrow> w1\<lparr>tasks := (tasks w1)[tid := Pending TickCall False]\<rparr>)"

definition tick_second :: "nat \<Rightarrow> error + checkpoint \<Rightarrow> world \<Rightarrow> world" where
  "tick_second tid r w =
     (case tick_resume w r of
        (Inl e, w1) \<Rightarrow> w1\<lparr>tasks := (tasks w1)[tid := finish Tick (Some e)]\<rparr>
      | (Inr u, w1) \<Rightarrow> w1\<lparr>tasks := (tasks w1)[tid := finish Tick None]\<rparr>)"

text \<open>
  \<^verbatim>\<open>stop\<close>, from its call to its first suspension; the call is a new entry of the tasks. It
  logs, sets \<^verbatim>\<open>stopping\<close>, reads \<^verbatim>\<open>self._runner_task\<close> (an \<open>AttributeError\<close> before
  \<^verbatim>\<open>start\<close>) and cancels it, then waits for \<^verbatim>\<open>stopped\<close> unless it is set already, and goes on
  to close the session.
\<close>

definition stop_begin :: "world \<Rightarrow> world" where
  "stop_begin w =
     (case runner_task w of
        None \<Rightarrow>
          w\<lparr>stopping := True,
            trace := trace w @ [LogInfo ''Gracefully shutting down application'' []],
            tasks := tasks w @ [finish Stop (Some (AttributeError ''_runner_task''))]\<rparr>
      | Some r \<Rightarrow>
          (cancel r w)
           \<lparr>stopping := True,
            trace := trace w @ [LogInfo ''Gracefully shutting down application'' []],
            tasks := tasks (cancel r w) @
              [Pending (if \<not> stopped w then StopWait else StopClose) False]\<rparr>)"

text \<open>
  The end of \<^verbatim>\<open>stop\<close>, when \<^verbatim>\<open>self.session.close()\<close> has returned: the session is closed
  (closing a closed aiohttp session does nothing), the last message is logged.
\<close>

definition stop_finish :: "nat \<Rightarrow> world \<Rightarrow> world" where
  "stop_finish tid w =
     w\<lparr>session_closed := True,
       trace := trace w @ [LogInfo ''Stopped components, will exit'' []],
       tasks := (tasks w)[tid := finish Stop None]\<rparr>"

section \<open>The event loop\<close>

text \<open>
  asyncio runs one task at a time, each from one suspension to the next. What happens next is
  the choice of the caller of the exporter, of the event loop, or of the chain client:
  \<^item> \<open>CallInit r\<close>: \<^verbatim>\<open>init()\<close> is awaited and the chain id request has the outcome \<open>r\<close>;
  \<^item> \<open>CallTick\<close>: \<^verbatim>\<open>tick()\<close> is awaited directly (it runs up to its \<^verbatim>\<open>await\<close>);
  \<^item> \<open>CallStart\<close>: \<^verbatim>\<open>start()\<close> is called;
  \<^item> \<open>CallStop\<close>: \<^verbatim>\<open>stop()\<close> is awaited (it runs up to its first suspension);
  \<^item> \<open>Step tid\<close>: the task \<open>tid\<close> runs: a cancelled task ends with \<open>CancelledError\<close>; a task
    that has not started starts; \<^verbatim>\<open>stop\<close> goes on when \<^verbatim>\<open>stopped\<close> is set, and ends when
    the session is closed;
  \<^item> \<open>Timer tid\<close>: the sleep of the task \<open>tid\<close> is over and the task runs;
  \<^item> \<open>Reply tid r\<close>: the contract call of the task \<open>tid\<close> has the outcome \<open>r\<close> and the task runs;
  \<^item> \<open>Callback tid\<close>: the done callback of the finished task \<open>tid\<close> runs.
  A choice that is not possible in the current state changes nothing.
\<close>

datatype action =
    CallInit "error + int"
  | CallTick
  | CallStart
  | CallStop
  | Step nat
  | Timer nat
  | Reply nat "error + checkpoint"
  | Callback nat

definition resume :: "nat \<Rightarrow> coro \<Rightarrow> world \<Rightarrow> world" where
  "resume tid c w =
     (case c of
        RunStart \<Rightarrow> run_iter tid w
      | RunSleep \<Rightarrow> w
      | TickStart \<Rightarrow> tick_first tid w
      | TickCall \<Rightarrow> w
      | StopWait \<Rightarrow>
          if stopped w then w\<lparr>tasks := (tasks w)[tid := Pending StopClose False]\<rparr> else w
      | StopClose \<Rightarrow> stop_finish tid w)"

fun step :: "action \<Rightarrow> world \<Rightarrow> world" where
  "step (CallInit r) w = snd (init w r)"
| "step CallTick w =
     tick_first (length (tasks w)) (w\<lparr>tasks := tasks w @ [Pending TickStart False]\<rparr>)"
| "step CallStart w = start w"
| "step CallStop w = stop_begin w"
| "step (Step tid) w =
     (if tid < length (tasks w) then
        (case tasks w ! tid of
           Pending c m \<Rightarrow>
             if m then w\<lparr>tasks := (tasks w)[tid := finish (kind_of c) (Some CancelledError)]\<rparr>
             else resume tid c w
         | Finished k r cb \<Rightarrow> w)
      else w)"
| "step (Timer tid) w =
     (if tid < length (tasks w) \<and> tasks w ! tid = Pending RunSleep False
      then run_iter tid w else w)"
| "step (Reply tid r) w =
     (if tid < length (tasks w) \<and> tasks w ! tid = Pending TickCall False
      then tick_second tid r w else w)"
| "step (Callback tid) w =
     (if tid < length (tasks w) then
        (case tasks w ! tid of
           Pending c m \<Rightarrow> w
         | Finished k r cb \<Rightarrow>
             if cb then (on_runner_task_done w)\<lparr>tasks := (tasks w)[tid := Finished k r False]\<rparr>
             else w)
      else w)"

fun exec :: "action list \<Rightarrow> world \<Rightarrow> world" where
  "exec [] w = w"
| "exec (a # as) w = exec as (step a w)"

section \<open>Serving layer\<close>

text \<open>
  \<^verbatim>\<open>start_exporter_app\<close>, the startup hook: it caches the session in the provider (outcome
  \<open>cs\<close>: the exception if that raises), awaits \<^verbatim>\<open>init()\<close> (chain id outcome \<open>cid\<close>), awaits
  one \<^verbatim>\<open>tick()\<close> (call outcome \<open>cp\<close>), and calls \<^verbatim>\<open>start()\<close>. An exception of any of them
  leaves the hook at once.
\<close>

definition start_exporter_app ::
  "world \<Rightarrow> error option \<Rightarrow> error + int \<Rightarrow> error + checkpoint \<Rightarrow> (error + unit) \<times> world" where
  "start_exporter_app w cs cid cp =
     (case cs of
        Some e \<Rightarrow> (Inl e, w)
      | None \<Rightarrow>
          (case init w cid of
             (Inl e, w1) \<Rightarrow> (Inl e, w1)
           | (Inr u, w1) \<Rightarrow>
               (case tick w1 cp of
                  (Inl e, w2) \<Rightarrow> (Inl e, w2)
                | (Inr u2, w2) \<Rightarrow> (Inr (), start w2))))"

text \<open>The gauge writes among the effects, and the ticks that the poll loop has spawned.\<close>

fun is_set :: "event \<Rightarrow> bool" where
  "is_set (GaugeSet l v) = True"
| "is_set e = False"

definition gauge_sets :: "world \<Rightarrow> event list" where
  "gauge_sets w = filter is_set (trace w)"

definition spawned_ticks :: "world \<Rightarrow> nat" where
  "spawned_ticks w = length (filter (\<lambda>e. e = CreateTask Tick) (trace w))"

section \<open>Predicates on tasks and runs\<close>

fun task_kind :: "task \<Rightarrow> coroutine" where
  "task_kind (Pending c m) = kind_of c"
| "task_kind (Finished k r cb) = k"

fun stop_entered :: "task \<Rightarrow> bool" where
  "stop_entered (Pending c m) = (c = StopWait \<or> c = StopClose)"
| "stop_entered (Finished k r cb) = (k = Stop \<and> r = None)"

fun stop_passed :: "task \<Rightarrow> bool" where
  "stop_passed (Pending c m) = (c = StopClose)"
| "stop_passed (Finished k r cb) = (k = Stop \<and> r = None)"

fun stop_done :: "task \<Rightarrow> bool" where
  "stop_done (Pending c m) = False"
| "stop_done (Finished k r cb) = (k = Stop \<and> r = None)"

definition stop_inv :: "world \<Rightarrow> bool" where
  "stop_inv w \<longleftrightarrow>
     (\<forall>t\<in>set (tasks w).
        (task_kind t = Stop \<longrightarrow> stopping w)
      \<and> (stop_entered t \<longrightarrow> runner_task w \<noteq> None)
      \<and> (stop_passed t \<longrightarrow> stopped w)
      \<and> (stop_done t \<longrightarrow> session_closed w))"

definition task_moves :: "world \<Rightarrow> action \<Rightarrow> task \<Rightarrow> bool" where
  "task_moves w a t' \<longleftrightarrow>
     t' \<in> set (tasks w)
   \<or> (\<exists>c m. Pending c m \<in> set (tasks w) \<and> t' = Pending c True \<and> a = CallStop
        \<and> runner_task w \<noteq> None)
   \<or> (\<exists>c. Pending c True \<in> set (tasks w)
        \<and> t' = Finished (kind_of c) (Some CancelledError) (kind_of c = Run))
   \<or> ((Pending RunStart False \<in> set (tasks w) \<or> Pending RunSleep False \<in> set (tasks w))
        \<and> (t' = Pending RunSleep False \<or> (\<exists>e. t' = Finished Run e True)))
   \<or> t' = Pending TickStart False
   \<or> t' = Pending TickCall False
   \<or> (\<exists>r. t' = Finished Tick r False)
   \<or> (Pending StopWait False \<in> set (tasks w) \<and> stopped w \<and> t' = Pending StopClose False)
   \<or> (Pending StopClose False \<in> set (tasks w) \<and> t' = Finished Stop None False
        \<and> session_closed (step a w))
   \<or> (\<exists>k r. Finished k r True \<in> set (tasks w) \<and> t' = Finished k r False)
   \<or> (a = CallStart \<and> t' = Pending RunStart False)
   \<or> (a = CallStop \<and> runner_task w = None
        \<and> t' = Finished Stop (Some (AttributeError ''_runner_task'')) False)
   \<or> (a = CallStop \<and> runner_task w \<noteq> None
        \<and> t' = Pending (if \<not> stopped w then StopWait else StopClose) False)"

definition shutdown_run :: "action list" where
  "shutdown_run =
     [CallInit (Inr 1), CallTick, Reply 0 (Inr (''root'', 5)), CallStart, Step 1, Step 2,
      CallStop, Step 1, Callback 1, Step 3, Step 3]"

definition steady_run :: "action list" where
  "steady_run = [CallInit (Inr 1), CallStart, Step 0, Step 1]"

fun harmless :: "task \<Rightarrow> bool" where
  "harmless (Pending c m) = (kind_of c = Tick)"
| "harmless (Finished k r cb) = (\<not> cb \<and> (k = Tick \<or> (k = Stop \<and> r \<noteq> None)))"

definition never_started :: "world \<Rightarrow> bool" where
  "never_started w \<longleftrightarrow>
     runner_task w = None \<and> \<not> stopped w \<and> \<not> session_closed w
   \<and> (\<forall>t\<in>set (tasks w). harmless t)"

definition resolves :: "error + int \<Rightarrow> SupportedNetworks option" where
  "resolves r = network (snd (init (new_exporter [] DEFAULT_INTERVAL_MS) r))"

fun event_ok :: "SupportedNetworks \<Rightarrow> event \<Rightarrow> bool" where
  "event_ok n (GaugeSet l v) = (l = str n)"
| "event_ok n (EthCall c f) = (hyperlane_merkle_tree_hook_contract n = Inr c)"
| "event_ok n e = True"

fun net_event :: "event \<Rightarrow> bool" where
  "net_event (GaugeSet l v) = True"
| "net_event (EthCall c f) = True"
| "net_event e = False"

definition net_inv :: "SupportedNetworks \<Rightarrow> world \<Rightarrow> bool" where
  "net_inv n w \<longleftrightarrow>
     (network w = None \<or> network w = Some n)
   \<and> (\<forall>c. contract_cache w = Some c \<longrightarrow>
         network w = Some n \<and> hyperlane_merkle_tree_hook_contract n = Inr c)
   \<and> (\<forall>e\<in>set (trace w). event_ok n e \<and> (net_event e \<longrightarrow> network w = Some n))"

definition reinit_run :: "action list" where
  "reinit_run =
     [CallInit (Inr 1), CallTick, Reply 0 (Inr (''root'', 5)),
      CallInit (Inr 17000), CallTick, Reply 1 (Inr (''root'', 6))]"

definition same_net_run :: "action list" where
  "same_net_run =
     [CallInit (Inr 1), CallTick, Reply 0 (Inr (''root'', 5)),
      CallInit (Inl (AdapterError ''timeout'')), CallInit (Inr 1), CallTick,
      Reply 1 (Inr (''root'', 6))]"

text \<open>What one step can do to the cache and to the effects.\<close>

definition net_moves :: "world \<Rightarrow> action \<Rightarrow> world \<Rightarrow> bool" where
  "net_moves w a w' \<longleftrightarrow>
     (\<forall>c. contract_cache w' = Some c \<longrightarrow>
        contract_cache w = Some c \<or> ((\<forall>r. a \<noteq> CallInit r) \<and> fst (contract w) = Inr c))
   \<and> (\<forall>e\<in>set (trace w').
        e \<in> set (trace w) \<or> \<not> net_event e
      \<or> ((\<forall>r. a \<noteq> CallInit r) \<and> (\<exists>c. e = EthCall c ''latestCheckpoint'' \<and> fst (contract w) = Inr c))
      \<or> ((\<forall>r. a \<noteq> CallInit r) \<and> (\<exists>n v. e = GaugeSet (str n) v \<and> network w = Some n)))"

definition overlap_run :: "action list" where
  "overlap_run = [CallInit (Inr 1), CallStart, Step 0, Step 1]"

text \<open>An interval whose quotient by 1000 is beyond the largest float.\<close>

definition huge_interval :: int where
  "huge_interval = 2 * 10 ^ 311"

section \<open>Properties\<close>

lemmas eval_defs = new_exporter_def init_def tick_first_def tick_begin_def
  contract_def get_hyperlane_merkle_tree_hook_contract_def
  hyperlane_merkle_tree_hook_contract_def tick_second_def tick_resume_def finish_def
  start_def resume_def run_iter_def stop_begin_def cancel_def stop_finish_def
  on_runner_task_done_def sleep_seconds_def str_def gauge_sets_def spawned_ticks_def
  truediv_def nearest_double_def ulp_exp_def binade_def round_half_even_def shl_def
  compute_bitlen
  tick_def start_exporter_app_def

lemma exec_append: "exec (s1 @ s2) w = exec s2 (exec s1 w)"
  by (induction s1 arbitrary: w) simp_all

lemma in_set_update: "t \<in> set (xs[i := x]) \<Longrightarrow> t = x \<or> t \<in> set xs"
  using set_update_subset_insert [of xs i x] by auto

lemma contract_fields [simp]:
  "stopping (snd (contract w)) = stopping w"
  "stopped (snd (contract w)) = stopped w"
  "session_closed (snd (contract w)) = session_closed w"
  "runner_task (snd (contract w)) = runner_task w"
  "network (snd (contract w)) = network w"
  "tasks (snd (contract w)) = tasks w"
  "trace (snd (contract w)) = trace w"
  "gauge (snd (contract w)) = gauge w"
  "interval_ms (snd (contract w)) = interval_ms w"
  by (simp_all add: contract_def split: option.splits sum.splits)

lemma tick_begin_alt:
  "tick_begin w =
     (case fst (contract w) of
        Inl e \<Rightarrow> (Inl e, snd (contract w))
      | Inr c \<Rightarrow> (Inr (), (snd (contract w))
          \<lparr>trace := trace (snd (contract w)) @ [EthCall c ''latestCheckpoint'']\<rparr>))"
  by (simp add: tick_begin_def split: prod.splits sum.splits)

lemma tick_begin_fields [simp]:
  "stopping (snd (tick_begin w)) = stopping w"
  "stopped (snd (tick_begin w)) = stopped w"
  "session_closed (snd (tick_begin w)) = session_closed w"
  "runner_task (snd (tick_begin w)) = runner_task w"
  "network (snd (tick_begin w)) = network w"
  "tasks (snd (tick_begin w)) = tasks w"
  "gauge (snd (tick_begin w)) = gauge w"
  "interval_ms (snd (tick_begin w)) = interval_ms w"
  by (simp_all add: tick_begin_alt split: sum.splits)

lemma tick_resume_fields [simp]:
  "stopping (snd (tick_resume w r)) = stopping w"
  "stopped (snd (tick_resume w r)) = stopped w"
  "session_closed (snd (tick_resume w r)) = session_closed w"
  "runner_task (snd (tick_resume w r)) = runner_task w"
  "network (snd (tick_resume w r)) = network w"
  "contract_cache (snd (tick_resume w r)) = contract_cache w"
  "tasks (snd (tick_resume w r)) = tasks w"
  "interval_ms (snd (tick_resume w r)) = interval_ms w"
  by (simp_all add: tick_resume_def split: sum.splits prod.splits option.splits)

lemma tick_first_alt:
  "tick_first tid w =
     (snd (tick_begin w))\<lparr>tasks := (tasks (snd (tick_begin w)))[tid :=
        (case fst (tick_begin w) of
           Inl e \<Rightarrow> Finished Tick (Some e) False
         | Inr u \<Rightarrow> Pending TickCall False)]\<rparr>"
  by (cases "tick_begin w") (simp add: tick_first_def finish_def split: sum.splits)

lemma tick_second_alt:
  "tick_second tid r w =
     (snd (tick_resume w r))\<lparr>tasks := (tasks (snd (tick_resume w r)))[tid :=
        (case fst (tick_resume w r) of
           Inl e \<Rightarrow> Finished Tick (Some e) False
         | Inr u \<Rightarrow> Finished Tick None False)]\<rparr>"
  by (cases "tick_resume w r") (simp add: tick_second_def finish_def split: sum.splits)

lemma cancel_fields [simp]:
  "stopping (cancel r w) = stopping w"
  "stopped (cancel r w) = stopped w"
  "session_closed (cancel r w) = session_closed w"
  "runner_task (cancel r w) = runner_task w"
  "network (cancel r w) = network w"
  "contract_cache (cancel r w) = contract_cache w"
  "trace (cancel r w) = trace w"
  "gauge (cancel r w) = gauge w"
  "interval_ms (cancel r w) = interval_ms w"
  "length (tasks (cancel r w)) = length (tasks w)"
  by (simp_all add: cancel_def split: task.splits)

lemmas step_defs = tick_first_alt tick_second_alt run_iter_def stop_begin_def stop_finish_def
  start_def on_runner_task_done_def resume_def init_def finish_def

lemma stopping_step: "stopping (step a w) = (stopping w \<or> a = CallStop)"
  by (cases a) (simp_all add: step_defs split: option.splits sum.splits task.splits coro.splits)

lemma stopped_step: "stopped w \<Longrightarrow> stopped (step a w)"
  by (cases a) (simp_all add: step_defs split: option.splits sum.splits task.splits coro.splits)

lemma session_closed_step: "session_closed w \<Longrightarrow> session_closed (step a w)"
  by (cases a) (simp_all add: step_defs split: option.splits sum.splits task.splits coro.splits)

lemma runner_task_step:
  "runner_task (step a w) = (if a = CallStart then Some (length (tasks w)) else runner_task w)"
  by (cases a) (simp_all add: step_defs split: option.splits sum.splits task.splits coro.splits)

lemma network_step: "\<forall>r. a \<noteq> CallInit r \<Longrightarrow> network (step a w) = network w"
  by (cases a) (simp_all add: step_defs split: option.splits sum.splits task.splits coro.splits)

lemma tick_begin_spawned [simp]: "spawned_ticks (snd (tick_begin w)) = spawned_ticks w"
  by (simp add: tick_begin_alt spawned_ticks_def split: sum.splits)

lemma tick_resume_spawned [simp]: "spawned_ticks (snd (tick_resume w r)) = spawned_ticks w"
  by (simp add: tick_resume_def spawned_ticks_def split: sum.splits prod.splits option.splits)

lemma spawned_ticks_upd [simp]:
  "spawned_ticks (w\<lparr>tasks := ts\<rparr>) = spawned_ticks w"
  "spawned_ticks (w\<lparr>stopped := b\<rparr>) = spawned_ticks w"
  "spawned_ticks (w\<lparr>stopping := b\<rparr>) = spawned_ticks w"
  "spawned_ticks (w\<lparr>session_closed := b\<rparr>) = spawned_ticks w"
  "spawned_ticks (w\<lparr>runner_task := rt\<rparr>) = spawned_ticks w"
  "spawned_ticks (w\<lparr>network := n\<rparr>) = spawned_ticks w"
  by (simp_all add: spawned_ticks_def)

lemma spawned_step: "stopping w \<Longrightarrow> spawned_ticks (step a w) = spawned_ticks w"
  apply (cases a)
  apply (simp_all add: step_defs split: option.splits sum.splits task.splits coro.splits)
  apply (simp_all add: spawned_ticks_def)
  done

lemma stopping_exec: "stopping w \<Longrightarrow> stopping (exec s w)"
  by (induction s arbitrary: w) (simp_all add: stopping_step)

lemma spawned_exec: "stopping w \<Longrightarrow> spawned_ticks (exec s w) = spawned_ticks w"
  by (induction s arbitrary: w) (simp_all add: stopping_step spawned_step)


lemma cancel_tasks:
  assumes "t \<in> set (tasks (cancel r w))"
  shows "t \<in> set (tasks w) \<or> (\<exists>c m. Pending c m \<in> set (tasks w) \<and> t = Pending c True)"
proof (cases "r < length (tasks w)")
  case True
  then have mem: "tasks w ! r \<in> set (tasks w)" by simp
  show ?thesis
  proof (cases "tasks w ! r")
    case (Pending c m)
    then have "tasks (cancel r w) = (tasks w)[r := Pending c True]"
      using True by (simp add: cancel_def)
    then have "t = Pending c True \<or> t \<in> set (tasks w)"
      using assms in_set_update by metis
    then show ?thesis using mem Pending by auto
  next
    case (Finished k e cb)
    then show ?thesis using assms True by (simp add: cancel_def)
  qed
next
  case False
  then show ?thesis using assms by (simp add: cancel_def)
qed


lemma run_iter_tasks:
  assumes "t' \<in> set (tasks (run_iter tid w))"
  shows "t' \<in> set (tasks w) \<or> t' = Pending RunSleep False \<or> (\<exists>e. t' = Finished Run e True)
     \<or> t' = Pending TickStart False"
proof (cases "stopping w")
  case True
  then have "t' \<in> set ((tasks w)[tid := Finished Run None True])"
    using assms by (simp add: run_iter_def finish_def)
  then show ?thesis using in_set_update by fastforce
next
  case False
  then have "t' \<in> set ((tasks w)[tid := Pending RunSleep False])
      \<or> (\<exists>e. t' \<in> set ((tasks w)[tid := Finished Run e True]))
      \<or> t' = Pending TickStart False"
    using assms by (cases "sleep_seconds w") (auto simp: run_iter_def finish_def)
  then show ?thesis using in_set_update by fastforce
qed

lemma tick_first_tasks:
  assumes "t' \<in> set (tasks (tick_first tid w))"
  shows "t' \<in> set (tasks w) \<or> t' = Pending TickCall False \<or> (\<exists>r. t' = Finished Tick r False)"
proof -
  have "\<exists>x. tasks (tick_first tid w) = (tasks w)[tid := x]
      \<and> (x = Pending TickCall False \<or> (\<exists>r. x = Finished Tick r False))"
    by (cases "fst (tick_begin w)") (simp_all add: tick_first_alt, blast+)
  then show ?thesis using assms in_set_update by metis
qed

lemma tick_second_tasks:
  assumes "t' \<in> set (tasks (tick_second tid r w))"
  shows "t' \<in> set (tasks w) \<or> (\<exists>r. t' = Finished Tick r False)"
proof -
  have "\<exists>x. tasks (tick_second tid r w) = (tasks w)[tid := Finished Tick x False]"
    by (cases "fst (tick_resume w r)") (simp_all add: tick_second_alt, blast+)
  then show ?thesis using assms in_set_update by metis
qed

lemma step_task_moves:
  assumes "t' \<in> set (tasks (step a w))"
  shows "task_moves w a t'"
proof (cases a)
  case (CallInit r)
  then have "tasks (step a w) = tasks w"
    by (simp add: init_def split: sum.splits)
  then show ?thesis using assms by (simp add: task_moves_def)
next
  case CallTick
  then have "t' \<in> set (tasks (tick_first (length (tasks w))
      (w\<lparr>tasks := tasks w @ [Pending TickStart False]\<rparr>)))"
    using assms by simp
  from tick_first_tasks [OF this]
  have "t' \<in> set (tasks w) \<or> t' = Pending TickStart False \<or> t' = Pending TickCall False
      \<or> (\<exists>r. t' = Finished Tick r False)"
    by auto
  then show ?thesis unfolding task_moves_def by blast
next
  case CallStart
  then have "t' \<in> set (tasks w) \<or> t' = Pending RunStart False"
    using assms by (auto simp: start_def)
  then show ?thesis unfolding task_moves_def using CallStart by blast
next
  case CallStop
  show ?thesis
  proof (cases "runner_task w")
    case None
    then have "t' \<in> set (tasks w)
        \<or> t' = Finished Stop (Some (AttributeError ''_runner_task'')) False"
      using assms CallStop by (auto simp: stop_begin_def finish_def)
    then show ?thesis unfolding task_moves_def using CallStop None by blast
  next
    case (Some r)
    then have "t' \<in> set (tasks (cancel r w))
        \<or> t' = Pending (if \<not> stopped w then StopWait else StopClose) False"
      using assms CallStop by (auto simp: stop_begin_def)
    then have "t' \<in> set (tasks w)
        \<or> (\<exists>c m. Pending c m \<in> set (tasks w) \<and> t' = Pending c True)
        \<or> t' = Pending (if \<not> stopped w then StopWait else StopClose) False"
      using cancel_tasks [of t' r w] by blast
    moreover have "runner_task w \<noteq> None" using Some by simp
    ultimately show ?thesis unfolding task_moves_def using CallStop by blast
  qed
next
  case (Step tid)
  show ?thesis
  proof (cases "tid < length (tasks w)")
    case True
    then have mem: "tasks w ! tid \<in> set (tasks w)" by simp
    show ?thesis
    proof (cases "tasks w ! tid")
      case (Pending c m)
      show ?thesis
      proof (cases m)
        case True
        then have "t' \<in> set ((tasks w)
            [tid := Finished (kind_of c) (Some CancelledError) (kind_of c = Run)])"
          using assms Step \<open>tid < length (tasks w)\<close> Pending by (simp add: finish_def)
        then have "t' = Finished (kind_of c) (Some CancelledError) (kind_of c = Run)
            \<or> t' \<in> set (tasks w)"
          using in_set_update by metis
        moreover have "Pending c True \<in> set (tasks w)" using mem Pending True by simp
        ultimately show ?thesis unfolding task_moves_def by blast
      next
        case False
        then have t': "t' \<in> set (tasks (resume tid c w))"
          using assms Step \<open>tid < length (tasks w)\<close> Pending by simp
        have old: "Pending c False \<in> set (tasks w)" using mem Pending False by simp
        show ?thesis
        proof (cases c)
          case RunStart
          then have "t' \<in> set (tasks (run_iter tid w))" using t' by (simp add: resume_def)
          from run_iter_tasks [OF this] show ?thesis
            unfolding task_moves_def using old RunStart by blast
        next
          case RunSleep
          then show ?thesis using t' by (simp add: resume_def task_moves_def)
        next
          case TickStart
          then have "t' \<in> set (tasks (tick_first tid w))" using t' by (simp add: resume_def)
          from tick_first_tasks [OF this] show ?thesis
            unfolding task_moves_def by blast
        next
          case TickCall
          then show ?thesis using t' by (simp add: resume_def task_moves_def)
        next
          case StopWait
          show ?thesis
          proof (cases "stopped w")
            case True
            then have "t' \<in> set ((tasks w)[tid := Pending StopClose False])"
              using t' StopWait by (simp add: resume_def)
            then have "t' = Pending StopClose False \<or> t' \<in> set (tasks w)"
              using in_set_update by metis
            then show ?thesis unfolding task_moves_def using old StopWait True by blast
          next
            case False
            then show ?thesis using t' StopWait by (simp add: resume_def task_moves_def)
          qed
        next
          case StopClose
          then have "t' \<in> set ((tasks w)[tid := Finished Stop None False])"
            using t' by (simp add: resume_def stop_finish_def finish_def)
          then have "t' = Finished Stop None False \<or> t' \<in> set (tasks w)"
            using in_set_update by metis
          moreover have "session_closed (step a w)"
            using Step \<open>tid < length (tasks w)\<close> Pending False StopClose
            by (simp add: resume_def stop_finish_def)
          ultimately show ?thesis unfolding task_moves_def using old StopClose by blast
        qed
      qed
    next
      case (Finished k e cb)
      then show ?thesis using assms Step True by (simp add: task_moves_def)
    qed
  next
    case False
    then show ?thesis using assms Step by (simp add: task_moves_def)
  qed
next
  case (Timer tid)
  show ?thesis
  proof (cases "tid < length (tasks w) \<and> tasks w ! tid = Pending RunSleep False")
    case True
    then have old: "Pending RunSleep False \<in> set (tasks w)" using nth_mem by metis
    have "t' \<in> set (tasks (run_iter tid w))" using assms Timer True by simp
    from run_iter_tasks [OF this] show ?thesis
      unfolding task_moves_def using old by blast
  next
    case False
    then have "t' \<in> set (tasks w)" using assms Timer by auto
    then show ?thesis by (simp add: task_moves_def)
  qed
next
  case (Reply tid r)
  show ?thesis
  proof (cases "tid < length (tasks w) \<and> tasks w ! tid = Pending TickCall False")
    case True
    then have "t' \<in> set (tasks (tick_second tid r w))" using assms Reply by simp
    from tick_second_tasks [OF this] show ?thesis
      unfolding task_moves_def by blast
  next
    case False
    then have "t' \<in> set (tasks w)" using assms Reply by auto
    then show ?thesis by (simp add: task_moves_def)
  qed
next
  case (Callback tid)
  show ?thesis
  proof (cases "tid < length (tasks w)")
    case True
    then have mem: "tasks w ! tid \<in> set (tasks w)" by simp
    show ?thesis
    proof (cases "tasks w ! tid")
      case (Pending c m)
      then show ?thesis using assms Callback True by (simp add: task_moves_def)
    next
      case (Finished k e cb)
      show ?thesis
      proof (cases cb)
        case True
        then have "t' \<in> set ((tasks w)[tid := Finished k e False])"
          using assms Callback \<open>tid < length (tasks w)\<close> Finished
          by (simp add: on_runner_task_done_def)
        then have "t' = Finished k e False \<or> t' \<in> set (tasks w)"
          using in_set_update by metis
        moreover have "Finished k e True \<in> set (tasks w)" using mem Finished True by simp
        ultimately show ?thesis unfolding task_moves_def by blast
      next
        case False
        then show ?thesis using assms Callback \<open>tid < length (tasks w)\<close> Finished
          by (simp add: task_moves_def)
      qed
    qed
  next
    case False
    then show ?thesis using assms Callback by (simp add: task_moves_def)
  qed
qed

lemma stop_inv_new: "stop_inv (new_exporter rpc ms)"
  by (simp add: stop_inv_def new_exporter_def)

lemma stop_inv_step:
  assumes "stop_inv w"
  shows "stop_inv (step a w)"
proof -
  define w' where "w' = step a w"
  have sg: "stopping w' = (stopping w \<or> a = CallStop)"
    by (simp add: w'_def stopping_step)
  have rt: "runner_task w \<noteq> None \<Longrightarrow> runner_task w' \<noteq> None"
    by (simp add: w'_def runner_task_step)
  have sd: "stopped w \<Longrightarrow> stopped w'"
    by (simp add: w'_def stopped_step)
  have sc: "session_closed w \<Longrightarrow> session_closed w'"
    by (simp add: w'_def session_closed_step)
  have inv: "\<And>t. t \<in> set (tasks w) \<Longrightarrow>
        (task_kind t = Stop \<longrightarrow> stopping w)
      \<and> (stop_entered t \<longrightarrow> runner_task w \<noteq> None)
      \<and> (stop_passed t \<longrightarrow> stopped w)
      \<and> (stop_done t \<longrightarrow> session_closed w)"
    using assms by (simp add: stop_inv_def)
  have "(task_kind t' = Stop \<longrightarrow> stopping w')
      \<and> (stop_entered t' \<longrightarrow> runner_task w' \<noteq> None)
      \<and> (stop_passed t' \<longrightarrow> stopped w')
      \<and> (stop_done t' \<longrightarrow> session_closed w')"
    if t': "t' \<in> set (tasks w')" for t'
  proof -
    have mv: "task_moves w a t'" using t' step_task_moves by (simp add: w'_def)
    then consider
        (old) "t' \<in> set (tasks w)"
      | (cancel) c m where "Pending c m \<in> set (tasks w)" "t' = Pending c True"
      | (cancelled) c where "Pending c True \<in> set (tasks w)"
          "t' = Finished (kind_of c) (Some CancelledError) (kind_of c = Run)"
      | (run) "t' = Pending RunSleep False \<or> (\<exists>e. t' = Finished Run e True)"
      | (tick) "t' = Pending TickStart False \<or> t' = Pending TickCall False
          \<or> (\<exists>r. t' = Finished Tick r False)"
      | (wait) "Pending StopWait False \<in> set (tasks w)" "stopped w"
          "t' = Pending StopClose False"
      | (close) "Pending StopClose False \<in> set (tasks w)" "t' = Finished Stop None False"
          "session_closed w'"
      | (callback) k r where "Finished k r True \<in> set (tasks w)" "t' = Finished k r False"
      | (start) "t' = Pending RunStart False"
      | (stop_fail) "a = CallStop"
          "t' = Finished Stop (Some (AttributeError ''_runner_task'')) False"
      | (stop_call) "a = CallStop" "runner_task w \<noteq> None"
          "t' = Pending (if \<not> stopped w then StopWait else StopClose) False"
      unfolding task_moves_def w'_def by blast
    then show ?thesis
    proof cases
      case old
      then show ?thesis using inv [of t'] sg rt sd sc
        by blast
    next
      case (cancel c m)
      then show ?thesis using inv [of "Pending c m"] sg rt sd
        by simp
    next
      case (cancelled c)
      then show ?thesis using inv [of "Pending c True"] sg
        by simp
    next
      case run
      then show ?thesis by auto
    next
      case tick
      then show ?thesis by auto
    next
      case wait
      then show ?thesis
        using inv [of "Pending StopWait False"] sg rt sd
        by simp
    next
      case close
      then show ?thesis
        using inv [of "Pending StopClose False"] sg rt sd
        by simp
    next
      case (callback k r)
      then show ?thesis
        using inv [of "Finished k r True"] sg rt sd sc
        by simp
    next
      case start
      then show ?thesis by simp
    next
      case stop_fail
      then show ?thesis using sg by simp
    next
      case stop_call
      then show ?thesis using sg rt sd by simp
    qed
  qed
  then show ?thesis by (simp add: stop_inv_def w'_def)
qed

lemma stop_inv_exec: "stop_inv w \<Longrightarrow> stop_inv (exec s w)"
  by (induction s arbitrary: w) (simp_all add: stop_inv_step)

lemma stop_returned:
  assumes "Finished Stop None False \<in> set (tasks (exec s (new_exporter rpc ms)))"
  shows "stopping (exec s (new_exporter rpc ms))"
    and "stopped (exec s (new_exporter rpc ms))"
    and "session_closed (exec s (new_exporter rpc ms))"
    and "runner_task (exec s (new_exporter rpc ms)) \<noteq> None"
  using stop_inv_exec [OF stop_inv_new, of s rpc ms] assms
  by (force simp: stop_inv_def)+

lemma tick_begin_gauge_sets [simp]: "gauge_sets (snd (tick_begin w)) = gauge_sets w"
  by (simp add: tick_begin_alt gauge_sets_def split: sum.splits)

lemma gauge_sets_upd [simp]:
  "gauge_sets (w\<lparr>tasks := ts\<rparr>) = gauge_sets w"
  "gauge_sets (w\<lparr>stopped := b\<rparr>) = gauge_sets w"
  "gauge_sets (w\<lparr>stopping := b\<rparr>) = gauge_sets w"
  "gauge_sets (w\<lparr>session_closed := b\<rparr>) = gauge_sets w"
  "gauge_sets (w\<lparr>runner_task := rt\<rparr>) = gauge_sets w"
  "gauge_sets (w\<lparr>network := n\<rparr>) = gauge_sets w"
  by (simp_all add: gauge_sets_def)

lemma gauge_sets_cancel [simp]: "gauge_sets (cancel r w) = gauge_sets w"
  by (simp add: gauge_sets_def)

lemma gauge_sets_resume: "gauge_sets (resume tid c w) = gauge_sets w"
  by (cases c) (simp_all add: resume_def run_iter_def tick_first_alt stop_finish_def
        split: sum.splits,
      simp_all add: gauge_sets_def)

lemma gauge_sets_step:
  "\<forall>tid r. a \<noteq> Reply tid r \<Longrightarrow> gauge_sets (step a w) = gauge_sets w"
proof (cases a)
  case (CallInit r)
  then show ?thesis by (simp add: init_def gauge_sets_def split: sum.splits)
next
  case CallTick
  then show ?thesis by (simp add: tick_first_alt)
next
  case CallStart
  then show ?thesis by (simp add: start_def gauge_sets_def)
next
  case CallStop
  then show ?thesis
    by (cases "runner_task w") (simp_all add: stop_begin_def, simp_all add: gauge_sets_def)
next
  case (Step tid)
  then show ?thesis by (simp add: gauge_sets_resume split: task.splits)
next
  case (Timer tid)
  then show ?thesis by (simp add: run_iter_def split: sum.splits, simp add: gauge_sets_def)
next
  case (Callback tid)
  then show ?thesis by (simp add: on_runner_task_done_def split: task.splits)
qed simp

text \<open>
  C4, as amended. Once a call of \<^verbatim>\<open>stop()\<close> has returned (an entry \<open>Finished Stop None\<close> among
  the tasks), whatever happens next, the poll loop creates no further task for \<^verbatim>\<open>tick()\<close>,
  \<open>stopping\<close> stays set and the session is closed; and the gauge is written only when the
  contract call of a tick returns (\<open>Reply\<close>), by no other step. The ticks that were created
  before are not cancelled by \<^verbatim>\<open>stop()\<close>: they are not covered by this statement.
\<close>

theorem no_tick_spawned_after_stop:
  assumes "Finished Stop None False \<in> set (tasks (exec s1 (new_exporter rpc ms)))"
  shows "spawned_ticks (exec (s1 @ s2) (new_exporter rpc ms))
           = spawned_ticks (exec s1 (new_exporter rpc ms))
       \<and> stopping (exec (s1 @ s2) (new_exporter rpc ms))
       \<and> session_closed (exec s1 (new_exporter rpc ms))
       \<and> ((\<forall>tid r. a \<noteq> Reply tid r) \<longrightarrow>
            gauge_sets (step a (exec (s1 @ s2) (new_exporter rpc ms)))
              = gauge_sets (exec (s1 @ s2) (new_exporter rpc ms)))"
  using stop_returned [OF assms]
  by (simp add: exec_append spawned_exec stopping_exec gauge_sets_step)

text \<open>
  C8. After \<^verbatim>\<open>start()\<close> and one completed \<^verbatim>\<open>stop()\<close>, a second \<^verbatim>\<open>stop()\<close> does not wait for
  \<open>stopped\<close>: its first suspension is already the closing of the session, and with the next
  step it returns, without an exception.
\<close>

theorem second_stop_completes:
  assumes "Finished Stop None False \<in> set (tasks (exec s (new_exporter rpc ms)))"
  shows "tasks (exec (s @ [CallStop]) (new_exporter rpc ms))
             ! length (tasks (exec s (new_exporter rpc ms))) = Pending StopClose False
       \<and> tasks (exec (s @ [CallStop, Step (length (tasks (exec s (new_exporter rpc ms))))])
             (new_exporter rpc ms))
             ! length (tasks (exec s (new_exporter rpc ms))) = Finished Stop None False"
proof -
  define w where "w = exec s (new_exporter rpc ms)"
  obtain r where r: "runner_task w = Some r"
    using stop_returned(4) [OF assms] by (auto simp: w_def)
  have st: "stopped w" using stop_returned(2) [OF assms] by (simp add: w_def)
  have sb: "tasks (stop_begin w) = tasks (cancel r w) @ [Pending StopClose False]"
    using r st by (simp add: stop_begin_def)
  have len: "length (tasks (cancel r w)) = length (tasks w)" by simp
  have a: "tasks (stop_begin w) ! length (tasks w) = Pending StopClose False"
    using sb len by (metis nth_append_length)
  have b: "tasks (step (Step (length (tasks w))) (stop_begin w)) ! length (tasks w)
      = Finished Stop None False"
    using a sb len by (simp add: resume_def stop_finish_def finish_def)
  show ?thesis using a b by (simp add: exec_append w_def)
qed

text \<open>
  The shutdown \<open>shutdown_run\<close>: the network is resolved, the first tick writes 5, the loop
  is started and spawns one tick, whose call is in flight when \<^verbatim>\<open>stop()\<close> is called; the
  loop's task is cancelled, its done callback sets \<open>stopped\<close>, \<^verbatim>\<open>stop()\<close> closes the session
  and returns. A loop started again after that spawns nothing.
\<close>

theorem no_tick_spawned_after_stop_witness:
  "Finished Stop None False \<in> set (tasks (exec shutdown_run (new_exporter ''rpc'' 30000)))
   \<and> spawned_ticks (exec (shutdown_run @ [CallStart, Step 4, Timer 4])
        (new_exporter ''rpc'' 30000)) = 1"
proof -
  have h: "Finished Stop None False \<in> set (tasks (exec shutdown_run (new_exporter ''rpc'' 30000)))"
    by (simp add: shutdown_run_def eval_defs)
  have "spawned_ticks (exec shutdown_run (new_exporter ''rpc'' 30000)) = 1"
    by (simp add: shutdown_run_def eval_defs)
  then show ?thesis
    using h no_tick_spawned_after_stop [OF h, of "[CallStart, Step 4, Timer 4]"] by simp
qed

text \<open>
  C4 as stated fails: in \<open>shutdown_run\<close> the call of \<^verbatim>\<open>stop()\<close> (entry 3) has returned and
  the gauge was written once; when the call of the tick spawned before the cancellation
  (entry 2) returns afterwards, the gauge is written again.
\<close>

theorem set_after_stop_counterexample:
  "tasks (exec shutdown_run (new_exporter ''rpc'' 30000)) ! 3 = Finished Stop None False
   \<and> gauge_sets (exec shutdown_run (new_exporter ''rpc'' 30000)) = [GaugeSet ''mainnet'' 5]
   \<and> gauge_sets (exec (shutdown_run @ [Reply 2 (Inr (''root'', 7))])
        (new_exporter ''rpc'' 30000)) = [GaugeSet ''mainnet'' 5, GaugeSet ''mainnet'' 7]"
  by (simp add: shutdown_run_def eval_defs)

text \<open>A second \<^verbatim>\<open>stop()\<close> after \<open>shutdown_run\<close> is entry 4, and returns.\<close>

theorem second_stop_completes_witness:
  "Finished Stop None False \<in> set (tasks (exec shutdown_run (new_exporter ''rpc'' 30000)))
   \<and> tasks (exec (shutdown_run @ [CallStop, Step 4]) (new_exporter ''rpc'' 30000)) ! 4
       = Finished Stop None False"
proof -
  have h: "Finished Stop None False \<in> set (tasks (exec shutdown_run (new_exporter ''rpc'' 30000)))"
    by (simp add: shutdown_run_def eval_defs)
  have l: "length (tasks (exec shutdown_run (new_exporter ''rpc'' 30000))) = 4"
    by (simp add: shutdown_run_def eval_defs)
  show ?thesis using h second_stop_completes [OF h] l by simp
qed

lemma contract_resolved:
  "network w = Some n \<Longrightarrow> \<exists>c. fst (contract w) = Inr c"
  by (cases n; cases "contract_cache w")
     (simp_all add: contract_def get_hyperlane_merkle_tree_hook_contract_def
        hyperlane_merkle_tree_hook_contract_def)

lemma tick_begin_resolved: "network w = Some n \<Longrightarrow> fst (tick_begin w) = Inr ()"
  using contract_resolved [of w n] by (auto simp: tick_begin_alt)

lemma tick_alt:
  "tick w r =
     (case fst (tick_begin w) of
        Inl e \<Rightarrow> (Inl e, snd (tick_begin w))
      | Inr u \<Rightarrow> tick_resume (snd (tick_begin w)) r)"
  by (cases "tick_begin w") (simp add: tick_def split: sum.splits)

lemma tick_resume_fail:
  "fst (tick_resume w r) = Inl e \<Longrightarrow>
     gauge (snd (tick_resume w r)) = gauge w
   \<and> gauge_sets (snd (tick_resume w r)) = gauge_sets w"
  by (auto simp: tick_resume_def gauge_sets_def split: sum.splits option.splits prod.splits)

lemma tick_fail:
  assumes "fst (tick w r) = Inl e"
  shows "gauge (snd (tick w r)) = gauge w \<and> gauge_sets (snd (tick w r)) = gauge_sets w"
proof (cases "fst (tick_begin w)")
  case (Inl e')
  then show ?thesis by (simp add: tick_alt)
next
  case (Inr u)
  then have t: "tick w r = tick_resume (snd (tick_begin w)) r" by (simp add: tick_alt)
  then have "fst (tick_resume (snd (tick_begin w)) r) = Inl e" using assms by simp
  from tick_resume_fail [OF this] show ?thesis using t by simp
qed

text \<open>
  C1. A \<^verbatim>\<open>tick()\<close> that ends with an exception (the contract call failed or was cancelled, or
  the contract could not be built) has written nothing: the gauge and the list of its writes
  are as before. With the network resolved, a failed call ends the tick with that exception,
  and a successful call makes the tick write the gauge exactly once, the fetched value under
  the network's label. Resuming a tick with a failed call changes nothing at all.
\<close>

theorem tick_writes_once_or_never:
  "(fst (tick w r) = Inl e \<longrightarrow>
      gauge (snd (tick w r)) = gauge w \<and> gauge_sets (snd (tick w r)) = gauge_sets w)
   \<and> (network w = Some n \<longrightarrow>
        fst (tick w (Inl e)) = Inl e
      \<and> fst (tick w (Inr (rt, v))) = Inr ()
      \<and> gauge (snd (tick w (Inr (rt, v)))) = AList.update (str n) v (gauge w)
      \<and> gauge_sets (snd (tick w (Inr (rt, v)))) = gauge_sets w @ [GaugeSet (str n) v])
   \<and> tick_resume w (Inl e) = (Inl e, w)"
proof (intro conjI impI)
  assume "fst (tick w r) = Inl e"
  then show "gauge (snd (tick w r)) = gauge w" "gauge_sets (snd (tick w r)) = gauge_sets w"
    using tick_fail by blast+
next
  assume n: "network w = Some n"
  have b: "fst (tick_begin w) = Inr ()" using n by (rule tick_begin_resolved)
  have n1: "network (snd (tick_begin w)) = Some n" using n by simp
  show "fst (tick w (Inl e)) = Inl e"
    using b by (simp add: tick_alt tick_resume_def)
  show "fst (tick w (Inr (rt, v))) = Inr ()"
    using b n1 by (simp add: tick_alt tick_resume_def)
  show "gauge (snd (tick w (Inr (rt, v)))) = AList.update (str n) v (gauge w)"
    using b n1 by (simp add: tick_alt tick_resume_def)
  have "gauge_sets (snd (tick_resume (snd (tick_begin w)) (Inr (rt, v))))
      = gauge_sets (snd (tick_begin w)) @ [GaugeSet (str n) v]"
    using n1 by (simp add: tick_resume_def gauge_sets_def)
  then show "gauge_sets (snd (tick w (Inr (rt, v)))) = gauge_sets w @ [GaugeSet (str n) v]"
    using b by (simp add: tick_alt)
next
  show "tick_resume w (Inl e) = (Inl e, w)"
    by (simp add: tick_resume_def)
qed

text \<open>On MAINNET: a cancelled call leaves the gauge empty, a call returning 12345 sets it.\<close>

theorem tick_writes_once_or_never_witness:
  "network (snd (init (new_exporter ''rpc'' 30000) (Inr 1))) = Some MAINNET
   \<and> fst (tick (snd (init (new_exporter ''rpc'' 30000) (Inr 1))) (Inl CancelledError))
       = Inl CancelledError
   \<and> gauge (snd (tick (snd (init (new_exporter ''rpc'' 30000) (Inr 1))) (Inl CancelledError)))
       = []
   \<and> gauge (snd (tick (snd (init (new_exporter ''rpc'' 30000) (Inr 1))) (Inr (''root'', 12345))))
       = [(''mainnet'', 12345)]"
proof -
  have n: "network (snd (init (new_exporter ''rpc'' 30000) (Inr 1))) = Some MAINNET"
    by (simp add: eval_defs)
  have g: "gauge (snd (init (new_exporter ''rpc'' 30000) (Inr 1))) = []"
    by (simp add: eval_defs)
  show ?thesis
    using n g
      tick_writes_once_or_never [of "snd (init (new_exporter ''rpc'' 30000) (Inr 1))"
        "Inl CancelledError" CancelledError MAINNET "''root''" 12345]
    by (simp add: str_def)
qed

text \<open>
  C2. \<^verbatim>\<open>init()\<close> resolves chain id 1 to MAINNET and 17000 to HOLESKY; for every other chain
  id it raises the unsupported-network error (in the source a \<open>RuntimeError\<close> with the
  message ``Unsupported network with chain id'' and the id), which reaches the caller, and
  leaves the exporter as it was, so that a fresh exporter still has no network.
\<close>

theorem init_resolves_network:
  "init w (Inr 1) =
     (Inr (), w\<lparr>network := Some MAINNET,
        trace := trace w @ [LogInfo ''Discovered Ethereum network as MAINNET'' []]\<rparr>)
   \<and> init w (Inr 17000) =
     (Inr (), w\<lparr>network := Some HOLESKY,
        trace := trace w @ [LogInfo ''Discovered Ethereum network as HOLESKY'' []]\<rparr>)
   \<and> (chain_id \<noteq> 1 \<and> chain_id \<noteq> 17000 \<longrightarrow>
        init w (Inr chain_id) =
          (Inl (RuntimeError [AStr ''Unsupported network with chain id %s'', AInt chain_id]), w)
      \<and> network (snd (init (new_exporter rpc ms) (Inr chain_id))) = None)"
  by (simp add: init_def new_exporter_def)

text \<open>Chain id 5 is not supported.\<close>

theorem init_resolves_network_witness:
  "init (new_exporter ''rpc'' 30000) (Inr 5)
     = (Inl (RuntimeError [AStr ''Unsupported network with chain id %s'', AInt 5]),
        new_exporter ''rpc'' 30000)
   \<and> network (snd (init (new_exporter ''rpc'' 30000) (Inr 5))) = None"
  using init_resolves_network [of "new_exporter ''rpc'' 30000" 5 "''rpc''" 30000]
  by (simp add: new_exporter_def)

text \<open>The float of a division is within half a unit in the last place of the quotient.\<close>

lemma round_half_even_near:
  assumes "0 < den"
  shows "\<bar>rat_of_int (round_half_even num den) - of_int num / of_int den\<bar> \<le> 1 / 2"
proof -
  define f where "f = num div den"
  define r where "r = num mod den"
  have r: "0 \<le> r" "r < den" using assms by (simp_all add: r_def)
  have num: "num = den * f + r" by (simp add: f_def r_def)
  have q: "rat_of_int num / of_int den = of_int f + of_int r / of_int den"
    using assms by (simp add: num field_simps)
  have frac: "0 \<le> rat_of_int r / of_int den" "rat_of_int r / of_int den < 1"
    using r assms by simp_all
  have half1: "2 * r < den \<Longrightarrow> rat_of_int r / of_int den < 1 / 2"
    using assms by (simp add: field_simps)
  have half2: "den < 2 * r \<Longrightarrow> 1 / 2 < rat_of_int r / of_int den"
    using assms by (simp add: field_simps)
  have half3: "\<not> 2 * r < den \<Longrightarrow> \<not> den < 2 * r \<Longrightarrow> rat_of_int r / of_int den = 1 / 2"
  proof -
    assume "\<not> 2 * r < den" "\<not> den < 2 * r"
    then have "den = 2 * r" by simp
    then show ?thesis using assms by simp
  qed
  show ?thesis
    unfolding round_half_even_def f_def [symmetric] r_def [symmetric] q
    using frac half1 half2 half3 by auto
qed

lemma shl_ratio:
  assumes "0 < b"
  shows "rat_of_int (shl a (- p)) / of_int (shl b p) = of_int a / of_int b / 2 powi p"
proof (cases "0 \<le> p")
  case True
  then show ?thesis
    by (cases "p = 0") (simp_all add: shl_def power_int_def)
next
  case False
  then show ?thesis
    by (simp add: shl_def power_int_def field_simps)
qed

lemma shl_pos: "0 < b \<Longrightarrow> 0 < shl b p"
  by (simp add: shl_def)

lemma binade_lower:
  assumes "0 < a" "0 < b"
  shows "2 powi (binade a b) \<le> rat_of_int a / of_int b"
proof -
  have a: "2 ^ nat (bitlen a - 1) \<le> a" using bitlen_bounds [OF assms(1)] by simp
  have b: "b < 2 ^ nat (bitlen b)" using bitlen_bounds [OF assms(2)] by simp
  have la: "1 \<le> bitlen a" using assms(1) bitlen_eq_zero_iff [of a] bitlen_nonneg [of a] by linarith
  have lb: "1 \<le> bitlen b" using assms(2) bitlen_eq_zero_iff [of b] bitlen_nonneg [of b] by linarith
  have ra: "(2::rat) powi (bitlen a - 1) \<le> of_int a"
  proof -
    have "rat_of_int (2 ^ nat (bitlen a - 1)) \<le> of_int a" using a of_int_le_iff by blast
    then show ?thesis using la by (simp add: power_int_def)
  qed
  have rb: "rat_of_int b \<le> 2 powi (bitlen b)"
  proof -
    have "rat_of_int b < of_int (2 ^ nat (bitlen b))" using b of_int_less_iff by blast
    then show ?thesis using lb by (simp add: power_int_def)
  qed
  have low: "(2::rat) powi (bitlen a - bitlen b - 1) \<le> of_int a / of_int b"
  proof -
    have "(2::rat) powi (bitlen a - bitlen b - 1) = 2 powi (bitlen a - 1) / 2 powi (bitlen b)"
      by (simp add: power_int_diff)
    also have "\<dots> \<le> of_int a / 2 powi (bitlen b)"
      using ra by (simp add: divide_right_mono)
    also have "\<dots> \<le> of_int a / of_int b"
      using rb assms by (simp add: frac_le)
    finally show ?thesis .
  qed
  show ?thesis
  proof (cases "shl b (bitlen a - bitlen b) \<le> shl a (bitlen b - bitlen a)")
    case True
    have "(2::rat) powi (bitlen a - bitlen b) \<le> of_int a / of_int b"
    proof (cases "0 \<le> bitlen a - bitlen b")
      case True
      then have "b * 2 ^ nat (bitlen a - bitlen b) \<le> a"
        using \<open>shl b (bitlen a - bitlen b) \<le> shl a (bitlen b - bitlen a)\<close>
        by (cases "bitlen a = bitlen b") (simp_all add: shl_def)
      then have "rat_of_int (b * 2 ^ nat (bitlen a - bitlen b)) \<le> of_int a"
        using of_int_le_iff by blast
      then show ?thesis using True assms by (simp add: power_int_def field_simps)
    next
      case False
      then have "b \<le> a * 2 ^ nat (bitlen b - bitlen a)"
        using \<open>shl b (bitlen a - bitlen b) \<le> shl a (bitlen b - bitlen a)\<close>
        by (simp add: shl_def)
      then have "rat_of_int b \<le> of_int (a * 2 ^ nat (bitlen b - bitlen a))"
        using of_int_le_iff by blast
      then show ?thesis using False assms by (simp add: power_int_def field_simps)
    qed
    then show ?thesis using True by (simp add: binade_def)
  next
    case False
    then show ?thesis using low by (simp add: binade_def)
  qed
qed

lemma nearest_double_near:
  assumes "0 < a" "0 < b" "- 1022 \<le> binade a b"
  shows "\<bar>float_value (nearest_double a b) - of_int a / of_int b\<bar>
      \<le> of_int a / of_int b / 2 ^ 53"
proof -
  define p where "p = ulp_exp a b"
  define q where "q = rat_of_int a / of_int b"
  define n where "n = round_half_even (shl a (- p)) (shl b p)"
  have p: "p = binade a b - 52" using assms(3) by (simp add: p_def ulp_exp_def)
  have "\<bar>rat_of_int n - q / 2 powi p\<bar> \<le> 1 / 2"
    using round_half_even_near [OF shl_pos [OF assms(2)], of "shl a (- p)" p]
    by (simp add: n_def q_def shl_ratio [OF assms(2)])
  then have "\<bar>rat_of_int n - q / 2 powi p\<bar> * 2 powi p \<le> 1 / 2 * 2 powi p"
    by (intro mult_right_mono) simp_all
  moreover have "rat_of_int n * 2 powi p - q = (rat_of_int n - q / 2 powi p) * 2 powi p"
    by (simp add: field_simps)
  then have "\<bar>rat_of_int n * 2 powi p - q\<bar> = \<bar>rat_of_int n - q / 2 powi p\<bar> * 2 powi p"
    by (simp only: abs_mult) simp
  ultimately have "\<bar>rat_of_int n * 2 powi p - q\<bar> \<le> 2 powi p / 2"
    by simp
  moreover have "(2::rat) powi p / 2 = 2 powi (binade a b) / 2 ^ 53"
    by (simp add: p power_int_diff)
  moreover have "(2::rat) powi (binade a b) / 2 ^ 53 \<le> q / 2 ^ 53"
    using binade_lower [OF assms(1,2)] by (simp add: q_def divide_right_mono)
  ultimately show ?thesis
    by (simp add: nearest_double_def p_def [symmetric] n_def [symmetric] q_def [symmetric])
qed

lemma bitlen_1000: "bitlen 1000 = 10"
  by (simp add: compute_bitlen)

lemma binade_1000:
  assumes "0 < a"
  shows "- 1022 \<le> binade a 1000"
proof -
  have "1 \<le> bitlen a"
    using assms bitlen_eq_zero_iff [of a] bitlen_nonneg [of a] by linarith
  then show ?thesis by (simp add: binade_def bitlen_1000)
qed

lemma float_value_negate: "float_value (negate f) = - float_value f"
  by (cases f) simp

lemma truediv_near:
  assumes "truediv ms 1000 = Inr d"
  shows "\<bar>float_value d - of_int ms / 1000\<bar> \<le> \<bar>of_int ms\<bar> / 1000 / 2 ^ 53"
proof -
  consider (zero) "ms = 0" | (pos) "0 < ms" | (neg) "ms < 0" by linarith
  then show ?thesis
  proof cases
    case zero
    then show ?thesis using assms by (auto simp: truediv_def)
  next
    case pos
    then have d: "d = nearest_double ms 1000"
      using assms by (auto simp: truediv_def split: if_splits)
    show ?thesis
      using nearest_double_near [of ms 1000] binade_1000 [OF pos] pos by (simp add: d)
  next
    case neg
    then have d: "d = negate (nearest_double (- ms) 1000)"
      using assms by (auto simp: truediv_def split: if_splits)
    have "0 < - ms" using neg by simp
    then have "\<bar>float_value (nearest_double (- ms) 1000) - of_int (- ms) / 1000\<bar>
        \<le> of_int (- ms) / 1000 / 2 ^ 53"
      using nearest_double_near [of "- ms" 1000] binade_1000 [of "- ms"] by simp
    moreover have "\<bar>float_value d - of_int ms / 1000\<bar>
        = \<bar>float_value (nearest_double (- ms) 1000) - of_int (- ms) / 1000\<bar>"
      by (simp add: d float_value_negate)
    moreover have "rat_of_int (- ms) = \<bar>of_int ms\<bar>" using neg by simp
    ultimately show ?thesis by simp
  qed
qed

lemma run_pass:
  assumes "\<not> stopping w" "sleep_seconds w = Inr d"
  shows "run_iter r w =
     w\<lparr>tasks := (tasks w)[r := Pending RunSleep False] @ [Pending TickStart False],
       trace := trace w @ [CreateTask Tick, AsyncioSleep d]\<rparr>"
  using assms by (simp add: run_iter_def)

lemma run_iter_sleeping:
  assumes "r < length (tasks w)" "tasks w ! r = Pending RunSleep False" "\<not> stopping w"
    "sleep_seconds w = Inr d"
  shows "exec (replicate n (Timer r)) w =
     w\<lparr>tasks := tasks w @ replicate n (Pending TickStart False),
       trace := trace w @ concat (replicate n [CreateTask Tick, AsyncioSleep d])\<rparr>"
  using assms
proof (induction n arbitrary: w)
  case 0
  then show ?case by simp
next
  case (Suc n)
  define w1 where "w1 = step (Timer r) w"
  have upd: "(tasks w)[r := Pending RunSleep False] = tasks w"
    using Suc.prems by (metis list_update_id)
  have w1: "w1 = w\<lparr>tasks := tasks w @ [Pending TickStart False],
      trace := trace w @ [CreateTask Tick, AsyncioSleep d]\<rparr>"
    using Suc.prems upd by (simp add: w1_def run_pass)
  have p: "r < length (tasks w1)" "tasks w1 ! r = Pending RunSleep False" "\<not> stopping w1"
      "sleep_seconds w1 = Inr d"
    using Suc.prems by (simp_all add: w1 nth_append sleep_seconds_def)
  have "exec (replicate (Suc n) (Timer r)) w = exec (replicate n (Timer r)) w1"
    by (simp add: w1_def)
  also have "\<dots> = w1\<lparr>tasks := tasks w1 @ replicate n (Pending TickStart False),
       trace := trace w1 @ concat (replicate n [CreateTask Tick, AsyncioSleep d])\<rparr>"
    using Suc.IH [OF p] .
  also have "\<dots> = w\<lparr>tasks := tasks w @ replicate (Suc n) (Pending TickStart False),
       trace := trace w @ concat (replicate (Suc n) [CreateTask Tick, AsyncioSleep d])\<rparr>"
    by (simp add: w1)
  finally show ?case .
qed

text \<open>
  C3, as amended. In every state of the event loop, whatever the other tasks are doing, a
  pass of \<^verbatim>\<open>run()\<close> with \<open>stopping\<close> false, at its first step or at the end of a sleep,
  creates one more task for \<^verbatim>\<open>tick()\<close>, which is left not started (the loop does not wait
  for it), and then, provided the division \<open>interval_ms / 1000\<close> gives a float \<open>d\<close>,
  suspends in \<^verbatim>\<open>asyncio.sleep(d)\<close>; after \<open>n + 1\<close> passes in a row there are \<open>n + 1\<close> such
  tasks and the loop sleeps. The float \<open>d\<close> differs from \<open>interval_ms / 1000\<close> seconds by at
  most the fraction \<open>2 ^ -53\<close> of it. When the loop finds \<open>stopping\<close> true, at its start or
  after a sleep, it sets \<open>stopped\<close> and returns.
\<close>

theorem run_loop:
  "(r < length (tasks w) \<and> tasks w ! r = Pending RunStart False \<and> \<not> stopping w
      \<and> sleep_seconds w = Inr d \<longrightarrow>
      step (Step r) w =
        w\<lparr>tasks := (tasks w)[r := Pending RunSleep False] @ [Pending TickStart False],
          trace := trace w @ [CreateTask Tick, AsyncioSleep d]\<rparr>)
   \<and> (r < length (tasks w) \<and> tasks w ! r = Pending RunSleep False \<and> \<not> stopping w
      \<and> sleep_seconds w = Inr d \<longrightarrow>
      step (Timer r) w =
        w\<lparr>tasks := tasks w @ [Pending TickStart False],
          trace := trace w @ [CreateTask Tick, AsyncioSleep d]\<rparr>)
   \<and> (r < length (tasks w) \<and> tasks w ! r = Pending RunStart False \<and> \<not> stopping w
      \<and> sleep_seconds w = Inr d \<longrightarrow>
      exec (Step r # replicate n (Timer r)) w =
        w\<lparr>tasks := (tasks w)[r := Pending RunSleep False]
                   @ replicate (Suc n) (Pending TickStart False),
          trace := trace w @ concat (replicate (Suc n) [CreateTask Tick, AsyncioSleep d])\<rparr>)
   \<and> (r < length (tasks w) \<and> tasks w ! r = Pending RunSleep False \<and> stopping w \<longrightarrow>
        step (Timer r) w =
          w\<lparr>stopped := True, tasks := (tasks w)[r := Finished Run None True]\<rparr>)
   \<and> (r < length (tasks w) \<and> tasks w ! r = Pending RunStart False \<and> stopping w \<longrightarrow>
        step (Step r) w =
          w\<lparr>stopped := True, tasks := (tasks w)[r := Finished Run None True]\<rparr>)
   \<and> (sleep_seconds w = Inr d \<longrightarrow>
        \<bar>float_value d - of_int (interval_ms w) / 1000\<bar>
          \<le> \<bar>of_int (interval_ms w)\<bar> / 1000 / 2 ^ 53)"
proof (intro conjI impI)
  assume a: "r < length (tasks w) \<and> tasks w ! r = Pending RunStart False \<and> \<not> stopping w
      \<and> sleep_seconds w = Inr d"
  then show "step (Step r) w =
        w\<lparr>tasks := (tasks w)[r := Pending RunSleep False] @ [Pending TickStart False],
          trace := trace w @ [CreateTask Tick, AsyncioSleep d]\<rparr>"
    by (simp add: resume_def run_pass)
next
  assume a: "r < length (tasks w) \<and> tasks w ! r = Pending RunSleep False \<and> \<not> stopping w
      \<and> sleep_seconds w = Inr d"
  then have "(tasks w)[r := Pending RunSleep False] = tasks w"
    by (metis list_update_id)
  then show "step (Timer r) w =
        w\<lparr>tasks := tasks w @ [Pending TickStart False],
          trace := trace w @ [CreateTask Tick, AsyncioSleep d]\<rparr>"
    using a by (simp add: run_pass)
next
  assume a: "r < length (tasks w) \<and> tasks w ! r = Pending RunStart False \<and> \<not> stopping w
      \<and> sleep_seconds w = Inr d"
  define w1 where "w1 = step (Step r) w"
  have w1: "w1 = w\<lparr>tasks := (tasks w)[r := Pending RunSleep False] @ [Pending TickStart False],
      trace := trace w @ [CreateTask Tick, AsyncioSleep d]\<rparr>"
    using a by (simp add: w1_def resume_def run_pass)
  have p: "r < length (tasks w1)" "tasks w1 ! r = Pending RunSleep False" "\<not> stopping w1"
      "sleep_seconds w1 = Inr d"
    using a by (simp_all add: w1 nth_append sleep_seconds_def)
  have "exec (Step r # replicate n (Timer r)) w = exec (replicate n (Timer r)) w1"
    by (simp add: w1_def)
  also have "\<dots> = w1\<lparr>tasks := tasks w1 @ replicate n (Pending TickStart False),
       trace := trace w1 @ concat (replicate n [CreateTask Tick, AsyncioSleep d])\<rparr>"
    using run_iter_sleeping [OF p] .
  also have "\<dots> = w\<lparr>tasks := (tasks w)[r := Pending RunSleep False]
                   @ replicate (Suc n) (Pending TickStart False),
          trace := trace w @ concat (replicate (Suc n) [CreateTask Tick, AsyncioSleep d])\<rparr>"
    by (simp add: w1)
  finally show "exec (Step r # replicate n (Timer r)) w =
        w\<lparr>tasks := (tasks w)[r := Pending RunSleep False]
                   @ replicate (Suc n) (Pending TickStart False),
          trace := trace w @ concat (replicate (Suc n) [CreateTask Tick, AsyncioSleep d])\<rparr>" .
next
  assume "r < length (tasks w) \<and> tasks w ! r = Pending RunSleep False \<and> stopping w"
  then show "step (Timer r) w =
      w\<lparr>stopped := True, tasks := (tasks w)[r := Finished Run None True]\<rparr>"
    by (simp add: run_iter_def finish_def)
next
  assume "r < length (tasks w) \<and> tasks w ! r = Pending RunStart False \<and> stopping w"
  then show "step (Step r) w =
      w\<lparr>stopped := True, tasks := (tasks w)[r := Finished Run None True]\<rparr>"
    by (simp add: resume_def run_iter_def finish_def)
next
  assume "sleep_seconds w = Inr d"
  then show "\<bar>float_value d - of_int (interval_ms w) / 1000\<bar>
          \<le> \<bar>of_int (interval_ms w)\<bar> / 1000 / 2 ^ 53"
    using truediv_near by (simp add: sleep_seconds_def)
qed

lemma bitlen_eqI:
  assumes "2 ^ nat (n - 1) \<le> x" "x < 2 ^ nat n" "0 < n"
  shows "bitlen x = n"
proof -
  have "(0::int) < 2 ^ nat (n - 1)" by simp
  then have x: "0 < x" using assms(1) by linarith
  have b: "2 ^ nat (bitlen x - 1) \<le> x" "x < 2 ^ nat (bitlen x)"
    using bitlen_bounds [OF x] by simp_all
  have pos: "1 \<le> bitlen x"
    using x bitlen_eq_zero_iff [of x] bitlen_nonneg [of x] by linarith
  have "(2::int) ^ nat (n - 1) < 2 ^ nat (bitlen x)" using assms(1) b(2) by linarith
  then have 1: "nat (n - 1) < nat (bitlen x)" by (simp add: power_strict_increasing_iff)
  have "(2::int) ^ nat (bitlen x - 1) < 2 ^ nat n" using assms(2) b(1) by linarith
  then have 2: "nat (bitlen x - 1) < nat n" by (simp add: power_strict_increasing_iff)
  show ?thesis using 1 2 pos assms(3) by linarith
qed

lemma bitlen_huge: "bitlen huge_interval = 1035"
  by (rule bitlen_eqI) (simp_all add: huge_interval_def)

lemma truediv_huge: "truediv huge_interval 1000 = Inl OverflowError"
proof -
  have a: "\<bar>huge_interval\<bar> = huge_interval" "huge_interval \<noteq> 0"
    by (simp_all add: huge_interval_def)
  have b: "bitlen 1000 = 10" by (simp add: compute_bitlen)
  have e: "binade huge_interval 1000 = 1024"
    by (simp add: binade_def bitlen_huge b shl_def) (simp add: huge_interval_def)
  have n: "2 ^ 52 \<le> round_half_even huge_interval (1000 * 2 ^ 972)"
    by (simp add: round_half_even_def huge_interval_def)
  have "(2::int) ^ 52 * 2 ^ 972 \<le> round_half_even huge_interval (1000 * 2 ^ 972) * 2 ^ 972"
    using n by (intro mult_right_mono) simp_all
  moreover have "(2::int) ^ 1024 = 2 ^ 52 * 2 ^ 972"
    by (simp flip: power_add)
  ultimately have "(2::int) ^ 1024 \<le> round_half_even huge_interval (1000 * 2 ^ 972) * 2 ^ 972"
    by (simp only:)
  moreover have "nearest_double huge_interval 1000
      = Float (round_half_even huge_interval (1000 * 2 ^ 972)) 972"
    by (simp add: nearest_double_def ulp_exp_def e shl_def)
  ultimately have "too_large (nearest_double huge_interval 1000)"
    by (simp only: too_large.simps) simp
  then show ?thesis using a by (simp add: truediv_def)
qed

text \<open>
  Three passes of a loop with an interval of 250 ms; a pass while the tick of the pass
  before is still waiting for its call (\<open>overlap_run\<close>); and a loop that finds \<open>stopping\<close>
  set.
\<close>

theorem run_loop_witness:
  "exec (Step 0 # replicate 2 (Timer 0)) (start (new_exporter ''rpc'' 250)) =
     (start (new_exporter ''rpc'' 250))
       \<lparr>tasks := [Pending RunSleep False, Pending TickStart False, Pending TickStart False,
                  Pending TickStart False],
        trace := [CreateTask Run,
                  CreateTask Tick, AsyncioSleep (Float 4503599627370496 (- 54)),
                  CreateTask Tick, AsyncioSleep (Float 4503599627370496 (- 54)),
                  CreateTask Tick, AsyncioSleep (Float 4503599627370496 (- 54))]\<rparr>
   \<and> float_value (Float 4503599627370496 (- 54)) = 1 / 4
   \<and> tasks (exec overlap_run (new_exporter ''rpc'' 250))
       = [Pending RunSleep False, Pending TickCall False]
   \<and> tasks (exec (overlap_run @ [Timer 0]) (new_exporter ''rpc'' 250))
       = [Pending RunSleep False, Pending TickCall False, Pending TickStart False]
   \<and> stopped (step (Timer 0) ((start (new_exporter ''rpc'' 250))
        \<lparr>stopping := True, tasks := [Pending RunSleep False]\<rparr>))"
proof -
  define w where "w = start (new_exporter ''rpc'' 250)"
  define v where "v = exec overlap_run (new_exporter ''rpc'' 250)"
  define u where "u = (start (new_exporter ''rpc'' 250))
        \<lparr>stopping := True, tasks := [Pending RunSleep False]\<rparr>"
  define d where "d = Float 4503599627370496 (- 54)"
  have w: "w = (new_exporter ''rpc'' 250)
      \<lparr>runner_task := Some 0, tasks := [Pending RunStart False], trace := [CreateTask Run]\<rparr>"
    by (simp add: w_def start_def new_exporter_def)
  have cw: "sleep_seconds w = Inr d"
    by (simp add: w d_def new_exporter_def eval_defs)
  have a: "0 < length (tasks w) \<and> tasks w ! 0 = Pending RunStart False \<and> \<not> stopping w
      \<and> sleep_seconds w = Inr d"
    using cw by (simp add: w new_exporter_def)
  have tv: "tasks v = [Pending RunSleep False, Pending TickCall False]"
    by (simp add: v_def overlap_run_def eval_defs)
  have b: "0 < length (tasks v) \<and> tasks v ! 0 = Pending RunSleep False \<and> \<not> stopping v
      \<and> sleep_seconds v = Inr d"
    by (simp add: v_def d_def overlap_run_def eval_defs)
  have c: "0 < length (tasks u) \<and> tasks u ! 0 = Pending RunSleep False \<and> stopping u"
    by (simp add: u_def)
  have "exec (Step 0 # replicate 2 (Timer 0)) w =
      w\<lparr>tasks := (tasks w)[0 := Pending RunSleep False]
                 @ replicate (Suc 2) (Pending TickStart False),
        trace := trace w @ concat (replicate (Suc 2) [CreateTask Tick, AsyncioSleep d])\<rparr>"
    using a run_loop [of 0 w d 2] by blast
  also have "\<dots> = w\<lparr>tasks := [Pending RunSleep False, Pending TickStart False,
                  Pending TickStart False, Pending TickStart False],
        trace := [CreateTask Run, CreateTask Tick, AsyncioSleep d, CreateTask Tick,
                  AsyncioSleep d, CreateTask Tick, AsyncioSleep d]\<rparr>"
    by (simp add: w numeral_2_eq_2 numeral_3_eq_3)
  finally have 1: "exec (Step 0 # replicate 2 (Timer 0)) w =
      w\<lparr>tasks := [Pending RunSleep False, Pending TickStart False,
                  Pending TickStart False, Pending TickStart False],
        trace := [CreateTask Run, CreateTask Tick, AsyncioSleep d, CreateTask Tick,
                  AsyncioSleep d, CreateTask Tick, AsyncioSleep d]\<rparr>" .
  have 2: "float_value d = 1 / 4"
    by (simp add: d_def power_int_minus)
  have "step (Timer 0) v =
      v\<lparr>tasks := tasks v @ [Pending TickStart False],
        trace := trace v @ [CreateTask Tick, AsyncioSleep d]\<rparr>"
    using b run_loop [of 0 v d] by blast
  then have "tasks (step (Timer 0) v)
      = [Pending RunSleep False, Pending TickCall False, Pending TickStart False]"
    by (simp add: tv)
  then have 3: "tasks (exec (overlap_run @ [Timer 0]) (new_exporter ''rpc'' 250))
      = [Pending RunSleep False, Pending TickCall False, Pending TickStart False]"
    by (simp add: exec_append v_def)
  have "step (Timer 0) u = u\<lparr>stopped := True, tasks := (tasks u)[0 := Finished Run None True]\<rparr>"
    using c run_loop [of 0 u] by blast
  then have 4: "stopped (step (Timer 0) u)" by simp
  show ?thesis
    using 1 2 3 4 tv unfolding w_def v_def u_def d_def by blast
qed

lemma sleep_seconds_huge: "interval_ms w = huge_interval \<Longrightarrow> sleep_seconds w = Inl OverflowError"
  by (simp add: sleep_seconds_def truediv_huge)

text \<open>
  C3 as stated fails: with the interval \<open>huge_interval\<close> and \<open>stopping\<close> false, the first
  pass of the loop creates the tick's task and then ends with \<open>OverflowError\<close>, raised by the
  division in \<^verbatim>\<open>sleep\<close>: it does not suspend, and \<^verbatim>\<open>asyncio.sleep\<close> is not called.
\<close>

theorem run_overflow_counterexample:
  "\<not> stopping (start (new_exporter ''rpc'' huge_interval))
   \<and> step (Step 0) (start (new_exporter ''rpc'' huge_interval)) =
       (new_exporter ''rpc'' huge_interval)
         \<lparr>runner_task := Some 0,
          tasks := [Finished Run (Some OverflowError) True, Pending TickStart False],
          trace := [CreateTask Run, CreateTask Tick]\<rparr>"
proof -
  have "sleep_seconds (start (new_exporter ''rpc'' huge_interval)) = Inl OverflowError"
    by (rule sleep_seconds_huge) (simp add: start_def new_exporter_def)
  then show ?thesis
    by (simp add: resume_def run_iter_def finish_def start_def new_exporter_def)
qed

lemma init_fail: "fst (init w r) = Inl e \<Longrightarrow> init w r = (Inl e, w)"
  by (auto simp: init_def split: sum.splits if_splits)

lemma init_ok:
  "fst (init w r) = Inr () \<Longrightarrow>
     \<exists>n msg. snd (init w r) = w\<lparr>network := Some n, trace := trace w @ [LogInfo msg []]\<rparr>"
  by (auto simp: init_def split: sum.splits if_splits)

lemma tick_begin_trace:
  "trace (snd (tick_begin w)) =
     trace w @ (case fst (contract w) of Inl e \<Rightarrow> [] | Inr c \<Rightarrow> [EthCall c ''latestCheckpoint''])"
  by (simp add: tick_begin_alt split: sum.splits)

lemma tick_begin_fst:
  "fst (tick_begin w) = (case fst (contract w) of Inl e \<Rightarrow> Inl e | Inr c \<Rightarrow> Inr ())"
  by (simp add: tick_begin_alt split: sum.splits)

lemma tick_keeps:
  "tasks (snd (tick w r)) = tasks w"
  "runner_task (snd (tick w r)) = runner_task w"
  "network (snd (tick w r)) = network w"
  by (simp_all add: tick_alt split: sum.splits)

lemma tick_ok:
  assumes "fst (tick w r) = Inr ()"
  shows "\<exists>n c rt v. r = Inr (rt, v) \<and> network w = Some n
     \<and> trace (snd (tick w r)) = trace w @
         [EthCall c ''latestCheckpoint'',
          LogInfo ''Fetched checkpoint index from contract: %s'' [AInt v],
          GaugeSet (str n) v]"
proof -
  define w1 where "w1 = snd (tick_begin w)"
  have b: "fst (tick_begin w) = Inr ()"
    using assms by (cases "fst (tick_begin w)") (simp_all add: tick_alt)
  then obtain c where c: "fst (contract w) = Inr c"
    by (cases "fst (contract w)") (simp_all add: tick_begin_fst)
  have tr: "trace w1 = trace w @ [EthCall c ''latestCheckpoint'']"
    using c by (simp add: w1_def tick_begin_trace)
  have t: "tick w r = tick_resume w1 r" using b by (simp add: tick_alt w1_def)
  then have ok: "fst (tick_resume w1 r) = Inr ()" using assms by simp
  then obtain rt v where r: "r = Inr (rt, v)"
    by (cases r) (auto simp: tick_resume_def)
  obtain n where n: "network w1 = Some n"
    using ok r by (cases "network w1") (simp_all add: tick_resume_def)
  have "trace (snd (tick_resume w1 r)) = trace w1 @
      [LogInfo ''Fetched checkpoint index from contract: %s'' [AInt v], GaugeSet (str n) v]"
    using r n by (simp add: tick_resume_def)
  then have "trace (snd (tick w r)) = trace w @
         [EthCall c ''latestCheckpoint'',
          LogInfo ''Fetched checkpoint index from contract: %s'' [AInt v],
          GaugeSet (str n) v]"
    using t tr by simp
  moreover have "network w = Some n" using n by (simp add: w1_def)
  ultimately show ?thesis using r by blast
qed

lemma start_exporter_app_alt:
  "start_exporter_app w None cid cp =
     (case fst (init w cid) of
        Inl e \<Rightarrow> (Inl e, snd (init w cid))
      | Inr u \<Rightarrow>
          (case fst (tick (snd (init w cid)) cp) of
             Inl e \<Rightarrow> (Inl e, snd (tick (snd (init w cid)) cp))
           | Inr u2 \<Rightarrow> (Inr (), start (snd (tick (snd (init w cid)) cp)))))"
  by (cases "init w cid"; cases "tick (snd (init w cid)) cp")
    (simp add: start_exporter_app_def split: sum.splits)

lemma tick_resolved: "network w = Some n \<Longrightarrow> fst (tick w (Inr (rt, v))) = Inr ()"
proof -
  assume n: "network w = Some n"
  then have "fst (tick_begin w) = Inr ()" by (rule tick_begin_resolved)
  moreover have "network (snd (tick_begin w)) = Some n" using n by simp
  ultimately show ?thesis by (simp add: tick_alt tick_resume_def)
qed

lemma init_keeps:
  "tasks (snd (init w r)) = tasks w"
  "runner_task (snd (init w r)) = runner_task w"
  by (simp_all add: init_def split: sum.splits)

text \<open>
  C5. \<^verbatim>\<open>start_exporter_app\<close> succeeds, and has called \<^verbatim>\<open>start()\<close> on the state that
  \<^verbatim>\<open>init()\<close> and \<^verbatim>\<open>tick()\<close> left, whenever \<^verbatim>\<open>init()\<close> and the first \<^verbatim>\<open>tick()\<close> succeed: that
  is, whenever the chain id is 1 or 17000 and the contract call returns.
  When \<^verbatim>\<open>start_exporter_app\<close> succeeds, its effects are, in this order: the message of
  \<^verbatim>\<open>init()\<close>, then the contract call, the message and the single gauge write of one
  \<^verbatim>\<open>tick()\<close>, under the label of the network just resolved, then the creation of the loop's
  task by \<^verbatim>\<open>start()\<close>. When it fails, no task was created and \<open>_runner_task\<close> is as before:
  \<^verbatim>\<open>start()\<close> was not called. A failure of \<^verbatim>\<open>init()\<close>, or of the first \<^verbatim>\<open>tick()\<close>, is the
  failure of the hook.
\<close>

theorem start_exporter_app_order:
  "(fst (start_exporter_app w cs cid cp) = Inr () \<longrightarrow>
      (\<exists>n c rt v msg. cs = None \<and> cp = Inr (rt, v)
         \<and> network (snd (start_exporter_app w cs cid cp)) = Some n
         \<and> trace (snd (start_exporter_app w cs cid cp)) = trace w @
             [LogInfo msg [], EthCall c ''latestCheckpoint'',
              LogInfo ''Fetched checkpoint index from contract: %s'' [AInt v],
              GaugeSet (str n) v, CreateTask Run]
         \<and> tasks (snd (start_exporter_app w cs cid cp)) = tasks w @ [Pending RunStart False]
         \<and> runner_task (snd (start_exporter_app w cs cid cp)) = Some (length (tasks w))))
   \<and> (fst (start_exporter_app w cs cid cp) = Inl e \<longrightarrow>
        tasks (snd (start_exporter_app w cs cid cp)) = tasks w
      \<and> runner_task (snd (start_exporter_app w cs cid cp)) = runner_task w)
   \<and> (fst (init w cid) = Inl e \<longrightarrow> start_exporter_app w None cid cp = (Inl e, w))
   \<and> (fst (init w cid) = Inr () \<and> fst (tick (snd (init w cid)) cp) = Inl e \<longrightarrow>
        fst (start_exporter_app w None cid cp) = Inl e)
   \<and> (fst (init w cid) = Inr () \<and> fst (tick (snd (init w cid)) cp) = Inr () \<longrightarrow>
        start_exporter_app w None cid cp
          = (Inr (), start (snd (tick (snd (init w cid)) cp))))
   \<and> (cid = Inr 1 \<or> cid = Inr 17000 \<longrightarrow>
        fst (start_exporter_app w None cid (Inr (rt0, v0))) = Inr ()
      \<and> tasks (snd (start_exporter_app w None cid (Inr (rt0, v0))))
          = tasks w @ [Pending RunStart False])
   \<and> start_exporter_app w (Some e) cid cp = (Inl e, w)"
proof (intro conjI impI)
  assume ok: "fst (start_exporter_app w cs cid cp) = Inr ()"
  have cs: "cs = None" using ok by (cases cs) (simp_all add: start_exporter_app_def)
  have i: "fst (init w cid) = Inr ()"
    using ok cs by (cases "fst (init w cid)") (simp_all add: start_exporter_app_alt)
  define w1 where "w1 = snd (init w cid)"
  have t: "fst (tick w1 cp) = Inr ()"
    using ok cs i by (cases "fst (tick w1 cp)") (simp_all add: start_exporter_app_alt w1_def)
  have res: "snd (start_exporter_app w cs cid cp) = start (snd (tick w1 cp))"
    using cs i t by (simp add: start_exporter_app_alt w1_def)
  obtain n0 msg where w1: "w1 = w\<lparr>network := Some n0, trace := trace w @ [LogInfo msg []]\<rparr>"
    using init_ok [OF i] by (auto simp: w1_def)
  obtain n c rt v where cp: "cp = Inr (rt, v)" and n: "network w1 = Some n"
    and tr: "trace (snd (tick w1 cp)) = trace w1 @
         [EthCall c ''latestCheckpoint'',
          LogInfo ''Fetched checkpoint index from contract: %s'' [AInt v],
          GaugeSet (str n) v]"
    using tick_ok [OF t] by blast
  have "network (snd (start_exporter_app w cs cid cp)) = Some n"
    using n by (simp add: res start_def tick_keeps)
  moreover have "trace (snd (start_exporter_app w cs cid cp)) = trace w @
             [LogInfo msg [], EthCall c ''latestCheckpoint'',
              LogInfo ''Fetched checkpoint index from contract: %s'' [AInt v],
              GaugeSet (str n) v, CreateTask Run]"
    using tr by (simp add: res start_def w1)
  moreover have "tasks (snd (start_exporter_app w cs cid cp)) = tasks w @ [Pending RunStart False]"
    by (simp add: res start_def tick_keeps w1)
  moreover have "runner_task (snd (start_exporter_app w cs cid cp)) = Some (length (tasks w))"
    by (simp add: res start_def tick_keeps w1)
  ultimately show "\<exists>n c rt v msg. cs = None \<and> cp = Inr (rt, v)
         \<and> network (snd (start_exporter_app w cs cid cp)) = Some n
         \<and> trace (snd (start_exporter_app w cs cid cp)) = trace w @
             [LogInfo msg [], EthCall c ''latestCheckpoint'',
              LogInfo ''Fetched checkpoint index from contract: %s'' [AInt v],
              GaugeSet (str n) v, CreateTask Run]
         \<and> tasks (snd (start_exporter_app w cs cid cp)) = tasks w @ [Pending RunStart False]
         \<and> runner_task (snd (start_exporter_app w cs cid cp)) = Some (length (tasks w))"
    using cs cp by blast
next
  assume f: "fst (start_exporter_app w cs cid cp) = Inl e"
  have "tasks (snd (start_exporter_app w cs cid cp)) = tasks w
      \<and> runner_task (snd (start_exporter_app w cs cid cp)) = runner_task w"
  proof (cases cs)
    case (Some e')
    then show ?thesis by (simp add: start_exporter_app_def)
  next
    case None
    show ?thesis
    proof (cases "fst (init w cid)")
      case (Inl e')
      then show ?thesis using None by (simp add: start_exporter_app_alt init_keeps)
    next
      case (Inr u)
      then show ?thesis using None f
        by (cases "fst (tick (snd (init w cid)) cp)")
          (simp_all add: start_exporter_app_alt init_keeps tick_keeps)
    qed
  qed
  then show "tasks (snd (start_exporter_app w cs cid cp)) = tasks w"
    and "runner_task (snd (start_exporter_app w cs cid cp)) = runner_task w"
    by simp_all
next
  assume "fst (init w cid) = Inl e"
  then show "start_exporter_app w None cid cp = (Inl e, w)"
    using init_fail [of w cid e] by (simp add: start_exporter_app_alt)
next
  assume "fst (init w cid) = Inr () \<and> fst (tick (snd (init w cid)) cp) = Inl e"
  then show "fst (start_exporter_app w None cid cp) = Inl e"
    by (simp add: start_exporter_app_alt)
next
  assume "fst (init w cid) = Inr () \<and> fst (tick (snd (init w cid)) cp) = Inr ()"
  then show "start_exporter_app w None cid cp
      = (Inr (), start (snd (tick (snd (init w cid)) cp)))"
    by (simp add: start_exporter_app_alt)
next
  assume c: "cid = Inr 1 \<or> cid = Inr 17000"
  have i: "fst (init w cid) = Inr ()" using c by (auto simp: init_def)
  have "\<exists>n. network (snd (init w cid)) = Some n" using c by (auto simp: init_def)
  then have t: "fst (tick (snd (init w cid)) (Inr (rt0, v0))) = Inr ()"
    using tick_resolved by blast
  have r: "start_exporter_app w None cid (Inr (rt0, v0))
      = (Inr (), start (snd (tick (snd (init w cid)) (Inr (rt0, v0)))))"
    using i t by (simp add: start_exporter_app_alt)
  show "fst (start_exporter_app w None cid (Inr (rt0, v0))) = Inr ()"
    by (simp add: r)
  show "tasks (snd (start_exporter_app w None cid (Inr (rt0, v0))))
      = tasks w @ [Pending RunStart False]"
    by (simp add: r start_def tick_keeps init_keeps)
next
  show "start_exporter_app w (Some e) cid cp = (Inl e, w)"
    by (simp add: start_exporter_app_def)
qed

text \<open>A startup on MAINNET, one on the unsupported chain 5, and one whose first call fails.\<close>

theorem start_exporter_app_order_witness:
  "start_exporter_app (new_exporter ''rpc'' 30000) None (Inr 1) (Inr (''root'', 12345)) =
     (Inr (),
      (new_exporter ''rpc'' 30000)
        \<lparr>network := Some MAINNET,
         contract_cache := Some ''0x48e6c30B97748d1e2e03bf3e9FbE3890ca5f8CCA'',
         runner_task := Some 0,
         gauge := [(''mainnet'', 12345)],
         tasks := [Pending RunStart False],
         trace := [LogInfo ''Discovered Ethereum network as MAINNET'' [],
                   EthCall ''0x48e6c30B97748d1e2e03bf3e9FbE3890ca5f8CCA'' ''latestCheckpoint'',
                   LogInfo ''Fetched checkpoint index from contract: %s'' [AInt 12345],
                   GaugeSet ''mainnet'' 12345, CreateTask Run]\<rparr>)
   \<and> start_exporter_app (new_exporter ''rpc'' 30000) None (Inr 5) (Inr (''root'', 12345)) =
       (Inl (RuntimeError [AStr ''Unsupported network with chain id %s'', AInt 5]),
        new_exporter ''rpc'' 30000)
   \<and> fst (start_exporter_app (new_exporter ''rpc'' 30000) None (Inr 1)
         (Inl (AdapterError ''connection refused''))) = Inl (AdapterError ''connection refused'')
   \<and> tasks (snd (start_exporter_app (new_exporter ''rpc'' 30000) None (Inr 1)
         (Inl (AdapterError ''connection refused'')))) = []"
proof -
  have 1: "fst (init (new_exporter ''rpc'' 30000) (Inr 5))
      = Inl (RuntimeError [AStr ''Unsupported network with chain id %s'', AInt 5])"
    by (simp add: init_def)
  have 2: "fst (init (new_exporter ''rpc'' 30000) (Inr 1)) = Inr ()
      \<and> fst (tick (snd (init (new_exporter ''rpc'' 30000) (Inr 1)))
          (Inl (AdapterError ''connection refused''))) = Inl (AdapterError ''connection refused'')"
    by (simp add: eval_defs)
  have 3: "start_exporter_app (new_exporter ''rpc'' 30000) None (Inr 1) (Inr (''root'', 12345)) =
     (Inr (),
      (new_exporter ''rpc'' 30000)
        \<lparr>network := Some MAINNET,
         contract_cache := Some ''0x48e6c30B97748d1e2e03bf3e9FbE3890ca5f8CCA'',
         runner_task := Some 0,
         gauge := [(''mainnet'', 12345)],
         tasks := [Pending RunStart False],
         trace := [LogInfo ''Discovered Ethereum network as MAINNET'' [],
                   EthCall ''0x48e6c30B97748d1e2e03bf3e9FbE3890ca5f8CCA'' ''latestCheckpoint'',
                   LogInfo ''Fetched checkpoint index from contract: %s'' [AInt 12345],
                   GaugeSet ''mainnet'' 12345, CreateTask Run]\<rparr>)"
    by (simp add: eval_defs)
  have 4: "tasks (new_exporter ''rpc'' 30000) = []" by (simp add: new_exporter_def)
  note t = start_exporter_app_order [of "new_exporter ''rpc'' 30000" None]
  show ?thesis
    using 1 2 3 4
      t [of "Inr 5" "Inr (''root'', 12345)"
           "RuntimeError [AStr ''Unsupported network with chain id %s'', AInt 5]"]
      t [of "Inr 1" "Inl (AdapterError ''connection refused'')"
           "AdapterError ''connection refused''"]
    by simp
qed

lemma tick_begin_logs:
  "LogInfo m args \<in> set (trace (snd (tick_begin w))) \<Longrightarrow> LogInfo m args \<in> set (trace w)"
  by (auto simp: tick_begin_alt split: sum.splits)

text \<open>
  C6, as amended. \<^verbatim>\<open>tick()\<close> has no handler: when the contract call fails, the exception
  leaves \<^verbatim>\<open>tick()\<close> and reaches its caller, the state being the one at the \<^verbatim>\<open>await\<close>, and
  \<^verbatim>\<open>tick()\<close> logs nothing. In steady state the caller is the task that \<^verbatim>\<open>run()\<close> created
  for this tick: the failure ends that task, which keeps the exception, and nothing else
  changes (the loop's task, the gauge, the effects).
\<close>

theorem tick_failure_propagates:
  "(fst (tick_begin w) = Inr () \<longrightarrow> tick w (Inl e) = (Inl e, snd (tick_begin w)))
   \<and> (LogInfo m args \<in> set (trace (snd (tick w (Inl e)))) \<longrightarrow> LogInfo m args \<in> set (trace w))
   \<and> (tid < length (tasks w) \<and> tasks w ! tid = Pending TickCall False \<longrightarrow>
        step (Reply tid (Inl e)) w = w\<lparr>tasks := (tasks w)[tid := Finished Tick (Some e) False]\<rparr>)"
proof (intro conjI impI)
  assume "fst (tick_begin w) = Inr ()"
  then show "tick w (Inl e) = (Inl e, snd (tick_begin w))"
    by (simp add: tick_alt tick_resume_def)
next
  assume "LogInfo m args \<in> set (trace (snd (tick w (Inl e))))"
  then have "LogInfo m args \<in> set (trace (snd (tick_begin w)))"
    by (cases "fst (tick_begin w)") (simp_all add: tick_alt tick_resume_def)
  then show "LogInfo m args \<in> set (trace w)" by (rule tick_begin_logs)
next
  assume "tid < length (tasks w) \<and> tasks w ! tid = Pending TickCall False"
  then show "step (Reply tid (Inl e)) w
      = w\<lparr>tasks := (tasks w)[tid := Finished Tick (Some e) False]\<rparr>"
    by (simp add: tick_second_def tick_resume_def finish_def)
qed

text \<open>
  In \<open>steady_run\<close> the loop sleeps and its first tick waits for the call; the call reverts.
\<close>

theorem tick_failure_propagates_witness:
  "tasks (exec steady_run (new_exporter ''rpc'' 30000))
     = [Pending RunSleep False, Pending TickCall False]
   \<and> tasks (exec (steady_run @ [Reply 1 (Inl (AdapterError ''execution reverted''))])
        (new_exporter ''rpc'' 30000))
     = [Pending RunSleep False, Finished Tick (Some (AdapterError ''execution reverted'')) False]
   \<and> fst (tick (snd (init (new_exporter ''rpc'' 30000) (Inr 1)))
        (Inl (AdapterError ''execution reverted''))) = Inl (AdapterError ''execution reverted'')"
proof -
  have a: "tasks (exec steady_run (new_exporter ''rpc'' 30000))
     = [Pending RunSleep False, Pending TickCall False]"
    by (simp add: steady_run_def eval_defs)
  have b: "fst (tick_begin (snd (init (new_exporter ''rpc'' 30000) (Inr 1)))) = Inr ()"
    by (simp add: eval_defs)
  have c: "1 < length (tasks (exec steady_run (new_exporter ''rpc'' 30000)))
      \<and> tasks (exec steady_run (new_exporter ''rpc'' 30000)) ! 1 = Pending TickCall False"
    using a by simp
  show ?thesis
    using a b c
      tick_failure_propagates [of "snd (init (new_exporter ''rpc'' 30000) (Inr 1))"
        "AdapterError ''execution reverted''"]
      tick_failure_propagates [of "exec steady_run (new_exporter ''rpc'' 30000)"
        "AdapterError ''execution reverted''" _ _ 1]
    by (simp add: exec_append)
qed

text \<open>
  C6 as stated fails: in \<open>steady_run\<close> the loop is running and sleeps, and the tick it
  spawned waits for its contract call. The call reverts: \<^verbatim>\<open>tick()\<close>, resumed with the
  exception, raises it, so that the task running it ends with the exception, and nothing is
  logged: the effects are those up to the call.
\<close>

theorem tick_raises_counterexample:
  "tasks (exec steady_run (new_exporter ''rpc'' 30000))
     = [Pending RunSleep False, Pending TickCall False]
   \<and> tick_resume (exec steady_run (new_exporter ''rpc'' 30000))
       (Inl (AdapterError ''execution reverted''))
     = (Inl (AdapterError ''execution reverted''), exec steady_run (new_exporter ''rpc'' 30000))
   \<and> tasks (exec (steady_run @ [Reply 1 (Inl (AdapterError ''execution reverted''))])
        (new_exporter ''rpc'' 30000))
     = [Pending RunSleep False, Finished Tick (Some (AdapterError ''execution reverted'')) False]
   \<and> trace (exec (steady_run @ [Reply 1 (Inl (AdapterError ''execution reverted''))])
        (new_exporter ''rpc'' 30000))
     = [LogInfo ''Discovered Ethereum network as MAINNET'' [], CreateTask Run, CreateTask Tick,
        AsyncioSleep (Float 8444249301319680 (- 48)),
        EthCall ''0x48e6c30B97748d1e2e03bf3e9FbE3890ca5f8CCA'' ''latestCheckpoint'']"
proof -
  have "tick_resume (exec steady_run (new_exporter ''rpc'' 30000))
       (Inl (AdapterError ''execution reverted''))
     = (Inl (AdapterError ''execution reverted''), exec steady_run (new_exporter ''rpc'' 30000))"
    by (simp add: tick_resume_def)
  moreover have "tasks (exec steady_run (new_exporter ''rpc'' 30000))
     = [Pending RunSleep False, Pending TickCall False]"
    by (simp add: steady_run_def eval_defs)
  moreover have "tasks (exec (steady_run @ [Reply 1 (Inl (AdapterError ''execution reverted''))])
        (new_exporter ''rpc'' 30000))
     = [Pending RunSleep False, Finished Tick (Some (AdapterError ''execution reverted'')) False]"
    by (simp add: steady_run_def eval_defs)
  moreover have "trace (exec (steady_run @ [Reply 1 (Inl (AdapterError ''execution reverted''))])
        (new_exporter ''rpc'' 30000))
     = [LogInfo ''Discovered Ethereum network as MAINNET'' [], CreateTask Run, CreateTask Tick,
        AsyncioSleep (Float 8444249301319680 (- 48)),
        EthCall ''0x48e6c30B97748d1e2e03bf3e9FbE3890ca5f8CCA'' ''latestCheckpoint'']"
    by (simp add: steady_run_def eval_defs)
  ultimately show ?thesis by blast
qed

lemma never_started_fields:
  assumes "never_started w"
  shows "stopped (step a w) = stopped w \<and> session_closed (step a w) = session_closed w"
proof (cases a)
  case (CallInit r)
  then show ?thesis by (simp add: init_def split: sum.splits)
next
  case CallTick
  then show ?thesis by (simp add: tick_first_alt)
next
  case CallStart
  then show ?thesis by (simp add: start_def)
next
  case CallStop
  then show ?thesis using assms by (simp add: never_started_def stop_begin_def)
next
  case (Step tid)
  show ?thesis
  proof (cases "tid < length (tasks w)")
    case True
    then have h: "harmless (tasks w ! tid)"
      using assms by (simp add: never_started_def)
    show ?thesis
    proof (cases "tasks w ! tid")
      case (Pending c m)
      then show ?thesis using h Step True
        by (cases c) (simp_all add: resume_def tick_first_alt)
    next
      case (Finished k r cb)
      then show ?thesis using Step True by simp
    qed
  next
    case False
    then show ?thesis using Step by simp
  qed
next
  case (Timer tid)
  show ?thesis
  proof (cases "tid < length (tasks w) \<and> tasks w ! tid = Pending RunSleep False")
    case True
    then have "harmless (Pending RunSleep False)"
      using assms nth_mem [of tid "tasks w"] by (auto simp: never_started_def)
    then show ?thesis by simp
  next
    case False
    then show ?thesis using Timer by auto
  qed
next
  case (Reply tid r)
  then show ?thesis by (simp add: tick_second_alt)
next
  case (Callback tid)
  show ?thesis
  proof (cases "tid < length (tasks w)")
    case True
    then have h: "harmless (tasks w ! tid)"
      using assms by (simp add: never_started_def)
    then show ?thesis using Callback True by (cases "tasks w ! tid") simp_all
  next
    case False
    then show ?thesis using Callback by simp
  qed
qed

lemma never_started_step:
  assumes "never_started w" and "a \<noteq> CallStart"
  shows "never_started (step a w)"
proof -
  have inv: "\<And>t. t \<in> set (tasks w) \<Longrightarrow> harmless t"
    using assms(1) by (simp add: never_started_def)
  have rn: "runner_task w = None" using assms(1) by (simp add: never_started_def)
  have "harmless t'" if t': "t' \<in> set (tasks (step a w))" for t'
  proof -
    have "task_moves w a t'" using t' by (rule step_task_moves)
    then consider
        (kept) "t' \<in> set (tasks w)"
      | (cancelled) c where "Pending c True \<in> set (tasks w)"
          "t' = Finished (kind_of c) (Some CancelledError) (kind_of c = Run)"
      | (run) "Pending RunStart False \<in> set (tasks w) \<or> Pending RunSleep False \<in> set (tasks w)"
      | (tick) "t' = Pending TickStart False \<or> t' = Pending TickCall False
          \<or> (\<exists>r. t' = Finished Tick r False)"
      | (wait) "Pending StopWait False \<in> set (tasks w)"
      | (close) "Pending StopClose False \<in> set (tasks w)"
      | (callback) k r where "Finished k r True \<in> set (tasks w)"
      | (stop_fail) "t' = Finished Stop (Some (AttributeError ''_runner_task'')) False"
      unfolding task_moves_def using rn assms(2) by blast
    then show ?thesis
    proof cases
      case kept
      then show ?thesis by (rule inv)
    next
      case (cancelled c)
      then show ?thesis using inv [of "Pending c True"] by simp
    next
      case run
      then show ?thesis using inv [of "Pending RunStart False"] inv [of "Pending RunSleep False"]
        by auto
    next
      case tick
      then show ?thesis by auto
    next
      case wait
      then show ?thesis using inv [of "Pending StopWait False"] by simp
    next
      case close
      then show ?thesis using inv [of "Pending StopClose False"] by simp
    next
      case (callback k r)
      then show ?thesis using inv [of "Finished k r True"] by simp
    next
      case stop_fail
      then show ?thesis by simp
    qed
  qed
  then show ?thesis
    using never_started_fields [OF assms(1), of a] assms
    by (simp add: never_started_def runner_task_step)
qed

lemma never_started_exec:
  "never_started w \<Longrightarrow> CallStart \<notin> set s \<Longrightarrow> never_started (exec s w)"
  by (induction s arbitrary: w) (auto simp: never_started_step)

lemma never_started_new: "never_started (new_exporter rpc ms)"
  by (simp add: never_started_def new_exporter_def)

text \<open>
  C10. As long as \<^verbatim>\<open>start()\<close> was never called, whatever else happened, a call of \<^verbatim>\<open>stop()\<close>
  logs its first message, sets \<open>stopping\<close>, and ends with the \<open>AttributeError\<close> for
  \<open>_runner_task\<close>; it changes nothing else, the session is not closed and \<open>stopped\<close> is
  not set.
\<close>

theorem stop_before_start_fails:
  assumes "CallStart \<notin> set s"
  shows "exec (s @ [CallStop]) (new_exporter rpc ms) =
      (exec s (new_exporter rpc ms))
        \<lparr>stopping := True,
         trace := trace (exec s (new_exporter rpc ms))
           @ [LogInfo ''Gracefully shutting down application'' []],
         tasks := tasks (exec s (new_exporter rpc ms))
           @ [Finished Stop (Some (AttributeError ''_runner_task'')) False]\<rparr>
    \<and> \<not> session_closed (exec (s @ [CallStop]) (new_exporter rpc ms))
    \<and> \<not> stopped (exec (s @ [CallStop]) (new_exporter rpc ms))"
proof -
  have n: "never_started (exec s (new_exporter rpc ms))"
    using never_started_exec [OF never_started_new assms] .
  then have "runner_task (exec s (new_exporter rpc ms)) = None"
    and "\<not> session_closed (exec s (new_exporter rpc ms))"
    and "\<not> stopped (exec s (new_exporter rpc ms))"
    by (simp_all add: never_started_def)
  then show ?thesis by (simp add: exec_append stop_begin_def finish_def)
qed

text \<open>\<^verbatim>\<open>stop()\<close> after \<^verbatim>\<open>init()\<close> and one \<^verbatim>\<open>tick()\<close>, without \<^verbatim>\<open>start()\<close>.\<close>

theorem stop_before_start_fails_witness:
  "CallStart \<notin> set [CallInit (Inr 1), CallTick, Reply 0 (Inr (''root'', 5))]
   \<and> tasks (exec ([CallInit (Inr 1), CallTick, Reply 0 (Inr (''root'', 5))] @ [CallStop])
        (new_exporter ''rpc'' 30000))
     = [Finished Tick None False,
        Finished Stop (Some (AttributeError ''_runner_task'')) False]
   \<and> stopping (exec ([CallInit (Inr 1), CallTick, Reply 0 (Inr (''root'', 5))] @ [CallStop])
        (new_exporter ''rpc'' 30000))"
proof -
  have h: "CallStart \<notin> set [CallInit (Inr 1), CallTick, Reply 0 (Inr (''root'', 5))]"
    by simp
  have t: "tasks (exec [CallInit (Inr 1), CallTick, Reply 0 (Inr (''root'', 5))]
      (new_exporter ''rpc'' 30000)) = [Finished Tick None False]"
    by (simp add: eval_defs)
  show ?thesis
    using h t stop_before_start_fails [OF h, of "''rpc''" 30000] by simp
qed

lemma init_network:
  "network (snd (init w r)) = (case resolves r of None \<Rightarrow> network w | Some m \<Rightarrow> Some m)"
  by (simp add: init_def resolves_def new_exporter_def split: sum.splits)

lemma init_cache [simp]: "contract_cache (snd (init w r)) = contract_cache w"
  by (simp add: init_def split: sum.splits)

lemma init_trace:
  "e \<in> set (trace (snd (init w r))) \<Longrightarrow> e \<in> set (trace w) \<or> \<not> net_event e"
  by (auto simp: init_def split: sum.splits if_splits)

lemma contract_fst:
  "fst (contract w) = Inr c \<Longrightarrow>
     contract_cache w = Some c
   \<or> (\<exists>n. network w = Some n \<and> hyperlane_merkle_tree_hook_contract n = Inr c)"
  by (auto simp: contract_def get_hyperlane_merkle_tree_hook_contract_def
      split: option.splits sum.splits)

lemma contract_cache_after:
  "contract_cache (snd (contract w)) = Some c \<Longrightarrow>
     contract_cache w = Some c \<or> fst (contract w) = Inr c"
  by (auto simp: contract_def split: option.splits sum.splits)

lemma tick_begin_cache:
  "contract_cache (snd (tick_begin w)) = contract_cache (snd (contract w))"
  by (simp add: tick_begin_alt split: sum.splits)

lemma contract_tasks_upd [simp]: "fst (contract (w\<lparr>tasks := ts\<rparr>)) = fst (contract w)"
  by (simp add: contract_def split: option.splits sum.splits)

lemma contract_cache_tasks_upd [simp]:
  "contract_cache (snd (contract (w\<lparr>tasks := ts\<rparr>))) = contract_cache (snd (contract w))"
  by (simp add: contract_def split: option.splits sum.splits)

lemma net_moves_same:
  "contract_cache w' = contract_cache w \<Longrightarrow> trace w' = trace w \<Longrightarrow> net_moves w a w'"
  by (simp add: net_moves_def)

lemma net_moves_plain:
  "contract_cache w' = contract_cache w \<Longrightarrow> trace w' = trace w @ ev
     \<Longrightarrow> \<forall>e\<in>set ev. \<not> net_event e \<Longrightarrow> net_moves w a w'"
  by (auto simp: net_moves_def)

lemma net_moves_tick_first:
  assumes "\<forall>r. a \<noteq> CallInit r"
  shows "net_moves w a (tick_first tid w)"
proof -
  have c: "contract_cache (tick_first tid w) = contract_cache (snd (contract w))"
    by (simp add: tick_first_alt tick_begin_cache)
  have t: "trace (tick_first tid w) = trace w @
      (case fst (contract w) of Inl e \<Rightarrow> [] | Inr c \<Rightarrow> [EthCall c ''latestCheckpoint''])"
    by (simp add: tick_first_alt tick_begin_trace)
  show ?thesis
    unfolding net_moves_def
  proof (intro conjI allI impI ballI)
    fix c' assume "contract_cache (tick_first tid w) = Some c'"
    then show "contract_cache w = Some c' \<or> ((\<forall>r. a \<noteq> CallInit r) \<and> fst (contract w) = Inr c')"
      using c contract_cache_after assms by auto
  next
    fix e assume "e \<in> set (trace (tick_first tid w))"
    then have "e \<in> set (trace w) \<or> (\<exists>c. e = EthCall c ''latestCheckpoint'' \<and> fst (contract w) = Inr c)"
      unfolding t by (cases "fst (contract w)") auto
    then show "e \<in> set (trace w) \<or> \<not> net_event e
      \<or> ((\<forall>r. a \<noteq> CallInit r) \<and> (\<exists>c. e = EthCall c ''latestCheckpoint'' \<and> fst (contract w) = Inr c))
      \<or> ((\<forall>r. a \<noteq> CallInit r) \<and> (\<exists>n v. e = GaugeSet (str n) v \<and> network w = Some n))"
      using assms by blast
  qed
qed

lemma net_moves_tick_second:
  assumes "\<forall>r. a \<noteq> CallInit r"
  shows "net_moves w a (tick_second tid x w)"
proof -
  have c: "contract_cache (tick_second tid x w) = contract_cache w"
    by (simp add: tick_second_alt)
  have t: "e \<in> set (trace (tick_second tid x w)) \<Longrightarrow>
      e \<in> set (trace w) \<or> \<not> net_event e \<or> (\<exists>n v. e = GaugeSet (str n) v \<and> network w = Some n)"
    for e
    by (auto simp: tick_second_alt tick_resume_def split: sum.splits option.splits prod.splits)
  show ?thesis
    unfolding net_moves_def using c t assms by auto
qed

lemma net_moves_run_iter: "net_moves w a (run_iter tid w)"
proof (cases "stopping w")
  case True
  then show ?thesis by (simp add: net_moves_same run_iter_def)
next
  case False
  show ?thesis
  proof (cases "sleep_seconds w")
    case (Inl e)
    then show ?thesis using False
      by (intro net_moves_plain [where ev = "[CreateTask Tick]"]) (simp_all add: run_iter_def)
  next
    case (Inr d)
    then show ?thesis using False
      by (intro net_moves_plain [where ev = "[CreateTask Tick, AsyncioSleep d]"])
        (simp_all add: run_iter_def)
  qed
qed

lemma net_moves_step: "net_moves w a (step a w)"
proof (cases a)
  case (CallInit r)
  then show ?thesis using init_trace [of _ w r] by (auto simp: net_moves_def)
next
  case CallTick
  have "net_moves (w\<lparr>tasks := tasks w @ [Pending TickStart False]\<rparr>) a
      (tick_first (length (tasks w)) (w\<lparr>tasks := tasks w @ [Pending TickStart False]\<rparr>))"
    using CallTick by (intro net_moves_tick_first) simp
  then show ?thesis using CallTick by (simp add: net_moves_def)
next
  case CallStart
  then show ?thesis
    by (simp, intro net_moves_plain [where ev = "[CreateTask Run]"]) (simp_all add: start_def)
next
  case CallStop
  then show ?thesis
    by (simp, intro net_moves_plain
        [where ev = "[LogInfo ''Gracefully shutting down application'' []]"])
      (simp_all add: stop_begin_def split: option.splits)
next
  case (Step tid)
  show ?thesis
  proof (cases "tid < length (tasks w)")
    case True
    show ?thesis
    proof (cases "tasks w ! tid")
      case (Pending c m)
      show ?thesis
      proof (cases m)
        case True
        then show ?thesis using Step Pending \<open>tid < length (tasks w)\<close>
          by (simp add: net_moves_same)
      next
        case False
        then have s: "step a w = resume tid c w"
          using Step Pending \<open>tid < length (tasks w)\<close> by simp
        show ?thesis unfolding s
        proof (cases c)
          case RunStart
          then show "net_moves w a (resume tid c w)"
            by (simp add: resume_def net_moves_run_iter)
        next
          case RunSleep
          then show "net_moves w a (resume tid c w)" by (simp add: resume_def net_moves_same)
        next
          case TickStart
          then show "net_moves w a (resume tid c w)"
            using Step by (simp add: resume_def net_moves_tick_first)
        next
          case TickCall
          then show "net_moves w a (resume tid c w)" by (simp add: resume_def net_moves_same)
        next
          case StopWait
          then show "net_moves w a (resume tid c w)" by (simp add: resume_def net_moves_same)
        next
          case StopClose
          then show "net_moves w a (resume tid c w)"
            by (simp add: resume_def, intro net_moves_plain
                [where ev = "[LogInfo ''Stopped components, will exit'' []]"])
              (simp_all add: stop_finish_def)
        qed
      qed
    next
      case (Finished k r cb)
      then show ?thesis using Step True by (simp add: net_moves_same)
    qed
  next
    case False
    then show ?thesis using Step by (simp add: net_moves_same)
  qed
next
  case (Timer tid)
  then show ?thesis by (simp add: net_moves_run_iter net_moves_same)
next
  case (Reply tid r)
  then show ?thesis by (simp add: net_moves_tick_second net_moves_same)
next
  case (Callback tid)
  then show ?thesis
    by (auto simp: net_moves_same on_runner_task_done_def split: task.splits)
qed

lemma network_kept:
  assumes "network w = Some n" and "\<forall>r. a = CallInit r \<longrightarrow> resolves r = None \<or> resolves r = Some n"
  shows "network (step a w) = Some n"
proof (cases "\<exists>r. a = CallInit r")
  case True
  then obtain r where r: "a = CallInit r" by blast
  then have "resolves r = None \<or> resolves r = Some n" using assms(2) by blast
  then show ?thesis using r assms(1) by (auto simp: init_network)
next
  case False
  then show ?thesis using assms(1) network_step [of a w] by simp
qed

lemma network_range:
  assumes "network w = None \<or> network w = Some n"
    and "\<forall>r. a = CallInit r \<longrightarrow> resolves r = None \<or> resolves r = Some n"
  shows "network (step a w) = None \<or> network (step a w) = Some n"
proof (cases "\<exists>r. a = CallInit r")
  case True
  then obtain r where r: "a = CallInit r" by blast
  then have "resolves r = None \<or> resolves r = Some n" using assms(2) by blast
  then show ?thesis using r assms(1) by (auto simp: init_network)
next
  case False
  then show ?thesis using assms(1) network_step [of a w] by simp
qed

lemma net_inv_step:
  assumes inv: "net_inv n w"
    and ok: "\<forall>r. a = CallInit r \<longrightarrow> resolves r = None \<or> resolves r = Some n"
  shows "net_inv n (step a w)"
proof -
  define w' where "w' = step a w"
  have mv: "net_moves w a w'" by (simp add: w'_def net_moves_step)
  have rng: "network w' = None \<or> network w' = Some n"
    using inv ok network_range by (simp add: w'_def net_inv_def)
  have kept: "network w = Some n \<Longrightarrow> network w' = Some n"
    using ok network_kept by (simp add: w'_def)
  have same: "\<forall>r. a \<noteq> CallInit r \<Longrightarrow> network w' = network w"
    using network_step by (simp add: w'_def)
  have built: "network w = Some n \<and> hyperlane_merkle_tree_hook_contract n = Inr c"
    if "fst (contract w) = Inr c" for c
    using contract_fst [OF that] inv by (auto simp: net_inv_def)
  have cache: "network w' = Some n \<and> hyperlane_merkle_tree_hook_contract n = Inr c"
    if c: "contract_cache w' = Some c" for c
  proof -
    have "contract_cache w = Some c \<or> ((\<forall>r. a \<noteq> CallInit r) \<and> fst (contract w) = Inr c)"
      using mv c by (simp add: net_moves_def)
    then show ?thesis
    proof
      assume "contract_cache w = Some c"
      then show ?thesis using inv kept by (simp add: net_inv_def)
    next
      assume "(\<forall>r. a \<noteq> CallInit r) \<and> fst (contract w) = Inr c"
      then show ?thesis using built kept by blast
    qed
  qed
  have events: "event_ok n e \<and> (net_event e \<longrightarrow> network w' = Some n)"
    if e: "e \<in> set (trace w')" for e
  proof -
    consider (old) "e \<in> set (trace w)" | (plain) "\<not> net_event e"
      | (call) c where "\<forall>r. a \<noteq> CallInit r" "e = EthCall c ''latestCheckpoint''"
          "fst (contract w) = Inr c"
      | (wrote) m v where "\<forall>r. a \<noteq> CallInit r" "e = GaugeSet (str m) v" "network w = Some m"
      using mv e unfolding net_moves_def by blast
    then show ?thesis
    proof cases
      case old
      then show ?thesis using inv kept by (auto simp: net_inv_def)
    next
      case plain
      then show ?thesis by (cases e) simp_all
    next
      case (call c)
      then show ?thesis using built [of c] kept by simp
    next
      case (wrote m v)
      then have "m = n" using inv by (auto simp: net_inv_def)
      then show ?thesis using wrote kept by simp
    qed
  qed
  show ?thesis
    using rng cache events by (simp add: net_inv_def w'_def)
qed

lemma net_inv_exec:
  "net_inv n w \<Longrightarrow> \<forall>r. CallInit r \<in> set s \<longrightarrow> resolves r = None \<or> resolves r = Some n
     \<Longrightarrow> net_inv n (exec s w)"
proof (induction s arbitrary: w)
  case Nil
  then show ?case by simp
next
  case (Cons a s)
  have "net_inv n (step a w)"
    using Cons.prems by (intro net_inv_step) auto
  then show ?case using Cons.IH Cons.prems(2) by simp
qed

lemma network_kept_exec:
  "network w = Some n \<Longrightarrow> \<forall>r. CallInit r \<in> set s \<longrightarrow> resolves r = None \<or> resolves r = Some n
     \<Longrightarrow> network (exec s w) = Some n"
proof (induction s arbitrary: w)
  case Nil
  then show ?case by simp
next
  case (Cons a s)
  have "network (step a w) = Some n"
    using Cons.prems by (intro network_kept) auto
  then show ?case using Cons.IH Cons.prems(2) by simp
qed

lemma net_inv_new: "net_inv n (new_exporter rpc ms)"
  by (simp add: net_inv_def new_exporter_def)

text \<open>
  C7, as amended. No step other than \<^verbatim>\<open>init()\<close> changes the network. In every sequence of
  operations on a fresh exporter in which no \<^verbatim>\<open>init()\<close> resolves a network other than \<open>n\<close>
  (each \<^verbatim>\<open>init()\<close> resolves \<open>n\<close> or fails; the program calls \<^verbatim>\<open>init()\<close> once), the
  network is unresolved or \<open>n\<close>, once it is \<open>n\<close> it stays \<open>n\<close>, every gauge write carries
  the label of \<open>n\<close> and happens with \<open>n\<close> resolved, and every contract call goes to the
  address of \<open>n\<close>.
\<close>

theorem network_resolved_once:
  "((\<forall>r. a \<noteq> CallInit r) \<longrightarrow> network (step a w) = network w)
   \<and> ((\<forall>r. CallInit r \<in> set s \<longrightarrow> resolves r = None \<or> resolves r = Some n) \<longrightarrow>
        (network (exec s (new_exporter rpc ms)) = None
          \<or> network (exec s (new_exporter rpc ms)) = Some n)
      \<and> (\<forall>l v. GaugeSet l v \<in> set (trace (exec s (new_exporter rpc ms))) \<longrightarrow>
            l = str n \<and> network (exec s (new_exporter rpc ms)) = Some n)
      \<and> (\<forall>c f. EthCall c f \<in> set (trace (exec s (new_exporter rpc ms))) \<longrightarrow>
            hyperlane_merkle_tree_hook_contract n = Inr c)
      \<and> (\<forall>s1 s2. s = s1 @ s2 \<and> network (exec s1 (new_exporter rpc ms)) = Some n \<longrightarrow>
            network (exec s (new_exporter rpc ms)) = Some n))"
proof (intro conjI impI)
  assume "\<forall>r. a \<noteq> CallInit r"
  then show "network (step a w) = network w" by (rule network_step)
next
  assume ok: "\<forall>r. CallInit r \<in> set s \<longrightarrow> resolves r = None \<or> resolves r = Some n"
  have inv: "net_inv n (exec s (new_exporter rpc ms))"
    using net_inv_exec [OF net_inv_new ok] .
  show "network (exec s (new_exporter rpc ms)) = None
      \<or> network (exec s (new_exporter rpc ms)) = Some n"
    using inv by (simp add: net_inv_def)
  show "\<forall>l v. GaugeSet l v \<in> set (trace (exec s (new_exporter rpc ms))) \<longrightarrow>
            l = str n \<and> network (exec s (new_exporter rpc ms)) = Some n"
    using inv by (force simp: net_inv_def)
  show "\<forall>c f. EthCall c f \<in> set (trace (exec s (new_exporter rpc ms))) \<longrightarrow>
            hyperlane_merkle_tree_hook_contract n = Inr c"
    using inv by (force simp: net_inv_def)
  show "\<forall>s1 s2. s = s1 @ s2 \<and> network (exec s1 (new_exporter rpc ms)) = Some n \<longrightarrow>
            network (exec s (new_exporter rpc ms)) = Some n"
  proof (intro allI impI)
    fix s1 s2
    assume a: "s = s1 @ s2 \<and> network (exec s1 (new_exporter rpc ms)) = Some n"
    then have "\<forall>r. CallInit r \<in> set s2 \<longrightarrow> resolves r = None \<or> resolves r = Some n"
      using ok by auto
    then have "network (exec s2 (exec s1 (new_exporter rpc ms))) = Some n"
      using a network_kept_exec by blast
    then show "network (exec s (new_exporter rpc ms)) = Some n"
      using a by (simp add: exec_append)
  qed
qed

text \<open>
  In \<open>same_net_run\<close> \<^verbatim>\<open>init()\<close> runs three times: it resolves MAINNET, fails on a timeout,
  and resolves MAINNET again.
\<close>

theorem network_resolved_once_witness:
  "resolves (Inr 1) = Some MAINNET \<and> resolves (Inl (AdapterError ''timeout'')) = None
   \<and> GaugeSet ''mainnet'' 6 \<in> set (trace (exec same_net_run (new_exporter ''rpc'' 30000)))
   \<and> network (exec same_net_run (new_exporter ''rpc'' 30000)) = Some MAINNET"
proof -
  have r: "resolves (Inr 1) = Some MAINNET" "resolves (Inl (AdapterError ''timeout'')) = None"
    by (simp_all add: resolves_def init_def new_exporter_def)
  have ok: "\<forall>r. CallInit r \<in> set same_net_run \<longrightarrow> resolves r = None \<or> resolves r = Some MAINNET"
    using r by (auto simp: same_net_run_def)
  have g: "GaugeSet ''mainnet'' 6 \<in> set (trace (exec same_net_run (new_exporter ''rpc'' 30000)))"
    by (simp add: same_net_run_def eval_defs)
  show ?thesis
    using r ok g network_resolved_once [of _ _ same_net_run MAINNET "''rpc''" 30000]
    by blast
qed

text \<open>
  C7 as stated fails: in \<open>reinit_run\<close> a second \<^verbatim>\<open>init()\<close> finds chain id 17000. The network
  changes from MAINNET to HOLESKY, and the next tick, whose contract was cached for MAINNET,
  writes under the label of HOLESKY the value read from the contract of MAINNET.
\<close>

theorem network_reassigned_counterexample:
  "network (exec (take 3 reinit_run) (new_exporter ''rpc'' 30000)) = Some MAINNET
   \<and> network (exec reinit_run (new_exporter ''rpc'' 30000)) = Some HOLESKY
   \<and> trace (exec reinit_run (new_exporter ''rpc'' 30000)) =
       [LogInfo ''Discovered Ethereum network as MAINNET'' [],
        EthCall ''0x48e6c30B97748d1e2e03bf3e9FbE3890ca5f8CCA'' ''latestCheckpoint'',
        LogInfo ''Fetched checkpoint index from contract: %s'' [AInt 5],
        GaugeSet ''mainnet'' 5,
        LogInfo ''Discovered Ethereum network as HOLESKY'' [],
        EthCall ''0x48e6c30B97748d1e2e03bf3e9FbE3890ca5f8CCA'' ''latestCheckpoint'',
        LogInfo ''Fetched checkpoint index from contract: %s'' [AInt 6],
        GaugeSet ''holesky'' 6]
   \<and> hyperlane_merkle_tree_hook_contract HOLESKY = Inr ''0x98AAE089CaD930C64a76dD2247a2aC5773a4B8cE''"
  by (simp add: reinit_run_def eval_defs)

text \<open>
  C9. For each member of \<open>SupportedNetworks\<close> (MAINNET, HOLESKY),
  \<open>hyperlane_merkle_tree_hook_contract\<close> returns that network's fixed address, which is not
  the empty string, and it never takes the final \<open>RuntimeError\<close> branch.
\<close>

theorem hyperlane_merkle_tree_hook_contract_total:
  "hyperlane_merkle_tree_hook_contract MAINNET = Inr ''0x48e6c30B97748d1e2e03bf3e9FbE3890ca5f8CCA''
   \<and> hyperlane_merkle_tree_hook_contract HOLESKY = Inr ''0x98AAE089CaD930C64a76dD2247a2aC5773a4B8cE''
   \<and> (\<exists>a. hyperlane_merkle_tree_hook_contract n = Inr a \<and> a \<noteq> [])
   \<and> hyperlane_merkle_tree_hook_contract n \<noteq> Inl e"
  by (cases n) (simp_all add: hyperlane_merkle_tree_hook_contract_def)

end
